theory Spec2Isabelle
  imports Complex_Main "HOL-Library.Char_ord" "HOL-Library.List_Lexorder" "HOL-Library.Multiset"
    "HOL-Library.Log_Nat"
begin

section \<open>Data model\<close>

text \<open>
  The scheduler of \<^verbatim>\<open>src/app/page.tsx\<close>. A \<^verbatim>\<open>Player\<close> is an identifier and a display name, a
  \<^verbatim>\<open>Match\<close> a court number and two arrays of players (the type is \<^verbatim>\<open>Player[]\<close>, so an array
  may hold fewer than two players), a \<^verbatim>\<open>SavedRound\<close> a stored round. Identifiers are strings;
  the order \<open><\<close> on them is the lexicographic order on character codes, as the comparison
  of two strings in the source.
\<close>

record Player =
  pid :: string
  pname :: string

record Match =
  court :: int
  teamA :: "Player list"
  teamB :: "Player list"

record SavedRound =
  rid :: string
  createdAt :: int
  rcourts :: int
  matches :: "Match list"
  results :: "int \<rightharpoonup> int \<times> int"

text \<open>
  A value stored in one of the three tables or computed from them is a number, \<^verbatim>\<open>NaN\<close>, or
  something that is no number (\<open>Other\<close>): a function or object inherited from
  \<^verbatim>\<open>Object.prototype\<close>, or the string that \<^verbatim>\<open>+\<close> makes of one. The numbers of the scores are
  sums of integer counts and quarters of them, which a double holds exactly at the sizes of
  a tournament; they are rationals here.
\<close>

datatype jsval = Num rat | NaN | Other

text \<open>\<^verbatim>\<open>+\<close> concatenates when an operand is no number; \<^verbatim>\<open>-\<close> and \<^verbatim>\<open>*\<close> convert it to \<^verbatim>\<open>NaN\<close>.\<close>

fun jsadd :: "jsval \<Rightarrow> jsval \<Rightarrow> jsval" where
  "jsadd (Num x) (Num y) = Num (x + y)"
| "jsadd Other _ = Other"
| "jsadd _ Other = Other"
| "jsadd _ _ = NaN"

fun jssub :: "jsval \<Rightarrow> jsval \<Rightarrow> jsval" where
  "jssub (Num x) (Num y) = Num (x - y)"
| "jssub _ _ = NaN"

fun jsmul :: "jsval \<Rightarrow> jsval \<Rightarrow> jsval" where
  "jsmul (Num x) (Num y) = Num (x * y)"
| "jsmul _ _ = NaN"

text \<open>
  A comparison with \<^verbatim>\<open>NaN\<close> is false. The scores that are compared are sums of products, so
  they are numbers or \<^verbatim>\<open>NaN\<close>.
\<close>

fun jslt :: "jsval \<Rightarrow> jsval \<Rightarrow> bool" where
  "jslt (Num x) (Num y) = (x < y)"
| "jslt _ _ = False"

text \<open>\<^verbatim>\<open>v ?? 0\<close>: only \<^verbatim>\<open>undefined\<close> reads as zero.\<close>

fun orZero :: "jsval option \<Rightarrow> jsval" where
  "orZero None = Num 0"
| "orZero (Some v) = v"

text \<open>
  The tables are plain objects \<^verbatim>\<open>{}\<close>: a map of their own properties, over the members of
  \<^verbatim>\<open>Object.prototype\<close>. Reading a key that is no own property gives the inherited member
  if the key names one, and \<^verbatim>\<open>undefined\<close> (\<open>None\<close>) otherwise. Writing makes an own property,
  but for the key \<^verbatim>\<open>__proto__\<close>, whose setter drops a value that is no object.
\<close>

definition protoNames :: "string list" where
  "protoNames =
     [''constructor'', ''__defineGetter__'', ''__defineSetter__'', ''hasOwnProperty'',
      ''__lookupGetter__'', ''__lookupSetter__'', ''isPrototypeOf'', ''propertyIsEnumerable'',
      ''toString'', ''valueOf'', ''__proto__'', ''toLocaleString'']"

definition getProp :: "(string \<rightharpoonup> jsval) \<Rightarrow> string \<Rightarrow> jsval option" where
  "getProp m k =
     (case m k of Some v \<Rightarrow> Some v
      | None \<Rightarrow> if k \<in> set protoNames then Some Other else None)"

definition setProp :: "(string \<rightharpoonup> jsval) \<Rightarrow> string \<Rightarrow> jsval \<Rightarrow> (string \<rightharpoonup> jsval)" where
  "setProp m k v = (if k = ''__proto__'' then m else m(k \<mapsto> v))"

text \<open>
  Reading \<^verbatim>\<open>xs[i].id\<close>: out of range the array gives \<^verbatim>\<open>undefined\<close>, and the property
  access on it raises a \<^verbatim>\<open>TypeError\<close>.
\<close>

datatype error = TypeError

definition idAt :: "Player list \<Rightarrow> nat \<Rightarrow> error + string" where
  "idAt xs i = (if i < length xs then Inr (pid (xs ! i)) else Inl TypeError)"

text \<open>The four identifiers of a match, read in the order of the source.\<close>

definition matchIds :: "Match \<Rightarrow> error + (string \<times> string \<times> string \<times> string)" where
  "matchIds m =
     (case idAt (teamA m) 0 of Inl e \<Rightarrow> Inl e | Inr a1 \<Rightarrow>
      case idAt (teamA m) 1 of Inl e \<Rightarrow> Inl e | Inr a2 \<Rightarrow>
      case idAt (teamB m) 0 of Inl e \<Rightarrow> Inl e | Inr b1 \<Rightarrow>
      case idAt (teamB m) 1 of Inl e \<Rightarrow> Inl e | Inr b2 \<Rightarrow> Inr (a1, a2, b1, b2))"

text \<open>A \<^verbatim>\<open>for ... of\<close> loop whose body may raise: the first error ends it.\<close>

fun forEachE :: "('a \<Rightarrow> 's \<Rightarrow> error + 's) \<Rightarrow> 'a list \<Rightarrow> 's \<Rightarrow> error + 's" where
  "forEachE f [] s = Inr s"
| "forEachE f (x # xs) s = (case f x s of Inl e \<Rightarrow> Inl e | Inr s' \<Rightarrow> forEachE f xs s')"

section \<open>Pair keys\<close>

definition makeKey :: "string \<Rightarrow> string \<Rightarrow> string" where
  "makeKey a b = (if a < b then a @ ''__'' @ b else b @ ''__'' @ a)"

section \<open>Statistics from the history\<close>

record Stats =
  gamesPlayed :: "string \<rightharpoonup> jsval"
  partnerCount :: "string \<rightharpoonup> jsval"
  opponentCount :: "string \<rightharpoonup> jsval"

text \<open>\<^verbatim>\<open>m[k] += 1\<close>: \<^verbatim>\<open>undefined + 1\<close> is \<^verbatim>\<open>NaN\<close>.\<close>

definition plusOne :: "(string \<rightharpoonup> jsval) \<Rightarrow> string \<Rightarrow> (string \<rightharpoonup> jsval)" where
  "plusOne m k = setProp m k (jsadd (case getProp m k of None \<Rightarrow> NaN | Some v \<Rightarrow> v) (Num 1))"

text \<open>\<^verbatim>\<open>m[k] = (m[k] ?? 0) + 1\<close>.\<close>

definition bump :: "(string \<rightharpoonup> jsval) \<Rightarrow> string \<Rightarrow> (string \<rightharpoonup> jsval)" where
  "bump m k = setProp m k (jsadd (orZero (getProp m k)) (Num 1))"

definition statsMatch :: "Match \<Rightarrow> Stats \<Rightarrow> error + Stats" where
  "statsMatch m st =
     (case matchIds m of Inl e \<Rightarrow> Inl e
      | Inr (a1, a2, b1, b2) \<Rightarrow>
          let g = plusOne (plusOne (plusOne (plusOne (gamesPlayed st) a1) a2) b1) b2;
              pa = makeKey a1 a2;
              pb = makeKey b1 b2;
              pc = bump (bump (partnerCount st) pa) pb;
              pairs = [(a1, b1), (a1, b2), (a2, b1), (a2, b2)];
              oc = fold (\<lambda>(x, y) oc. bump oc (makeKey x y)) pairs (opponentCount st)
          in Inr \<lparr>gamesPlayed = g, partnerCount = pc, opponentCount = oc\<rparr>)"

definition initStats :: "Player list \<Rightarrow> Stats" where
  "initStats players =
     \<lparr>gamesPlayed = fold (\<lambda>p g. setProp g (pid p) (Num 0)) players Map.empty,
      partnerCount = Map.empty,
      opponentCount = Map.empty\<rparr>"

definition computeStats :: "Player list \<Rightarrow> SavedRound list \<Rightarrow> error + Stats" where
  "computeStats players savedRounds =
     forEachE (\<lambda>round. forEachE statsMatch (matches round)) savedRounds (initStats players)"

section \<open>Doubles\<close>

text \<open>
  The percentage of the coverage is computed in doubles, where a quotient is not exact.
  \<open>toDouble x\<close> is the double nearest to the rational \<open>x\<close>, the one with the even significand
  when two are equally near: the significand \<open>roundEven (x / 2 powi e)\<close> has 53 bits, for the
  exponent \<open>e\<close> that puts \<open>x / 2 powi e\<close> between \<open>2 ^ 52\<close> and \<open>2 ^ 53\<close>. Overflow and
  subnormal numbers are left out: the counts of a tournament are far from both.
\<close>

definition roundEven :: "rat \<Rightarrow> int" where
  "roundEven y =
     (let f = \<lfloor>y\<rfloor>; r = y - of_int f
      in if r < 1 / 2 then f else if 1 / 2 < r then f + 1 else if even f then f else f + 1)"

definition exponent :: "rat \<Rightarrow> int" where
  "exponent x =
     (let (p, q) = quotient_of x;
          e = bitlen p - bitlen q - 53
      in if x / 2 powi e < 2 ^ 53 then e else e + 1)"

definition toDouble :: "rat \<Rightarrow> rat" where
  "toDouble x =
     (if x = 0 then 0
      else if x < 0 then - (of_int (roundEven (- x / 2 powi exponent (- x))) * 2 powi exponent (- x))
      else of_int (roundEven (x / 2 powi exponent x)) * 2 powi exponent x)"

section \<open>Partner coverage\<close>

record Coverage =
  complete :: bool
  percent :: int
  missingPairs :: int
  totalPairs :: int

definition seenMatch :: "Match \<Rightarrow> string set \<Rightarrow> error + string set" where
  "seenMatch m seenPairs =
     (case matchIds m of Inl e \<Rightarrow> Inl e
      | Inr (a1, a2, b1, b2) \<Rightarrow>
          let a = makeKey a1 a2; b = makeKey b1 b2
          in Inr (insert b (insert a seenPairs)))"

text \<open>
  \<^verbatim>\<open>Math.round\<close> is \<^term>\<open>round\<close>: the floor of the number plus one half. The quotient and
  the product by 100 are each rounded to a double.
\<close>

definition partnerCoverage :: "Player list \<Rightarrow> SavedRound list \<Rightarrow> error + Coverage" where
  "partnerCoverage players savedRounds =
     (let n = int (length players) in
      if n \<le> 1 then Inr \<lparr>complete = True, percent = 100, missingPairs = 0, totalPairs = 0\<rparr>
      else
        let total = (n * (n - 1)) div 2 in
        case forEachE (\<lambda>round. forEachE seenMatch (matches round)) savedRounds {} of
          Inl e \<Rightarrow> Inl e
        | Inr seenPairs \<Rightarrow>
            let done = int (card seenPairs);
                pct = max 0 (min 100 (round (toDouble (toDouble (of_int done / of_int total) * 100))));
                missing = max 0 (total - done)
            in Inr \<lparr>complete = (done \<ge> total), percent = pct, missingPairs = missing,
                    totalPairs = total\<rparr>)"

section \<open>Recommended number of rounds\<close>

definition recommendRoundsPartner :: "int \<Rightarrow> int \<Rightarrow> int" where
  "recommendRoundsPartner playerCount courts =
     (if playerCount < 4 then 0
      else
        let c = max 1 (min courts (let f = playerCount div 4 in if f = 0 then 1 else f));
            num = playerCount * (playerCount - 1);
            den = 4 * c
        in max 1 \<lceil>(of_int num :: rat) / of_int den\<rceil>)"

section \<open>The fair-round generator\<close>

text \<open>
  \<^verbatim>\<open>Array.prototype.sort\<close> with a comparator: a stable sort, here by insertion. An element
  moves behind another when the comparator is positive; a comparator that yields
  \<^verbatim>\<open>NaN\<close> counts as zero.
\<close>

fun positive :: "jsval \<Rightarrow> bool" where
  "positive (Num x) = (0 < x)"
| "positive _ = False"

fun insertBy :: "('a \<Rightarrow> 'a \<Rightarrow> jsval) \<Rightarrow> 'a \<Rightarrow> 'a list \<Rightarrow> 'a list" where
  "insertBy cmp x [] = [x]"
| "insertBy cmp x (y # ys) = (if positive (cmp x y) then y # insertBy cmp x ys else x # y # ys)"

definition sortBy :: "('a \<Rightarrow> 'a \<Rightarrow> jsval) \<Rightarrow> 'a list \<Rightarrow> 'a list" where
  "sortBy cmp xs = foldr (insertBy cmp) xs []"

definition partner :: "Stats \<Rightarrow> string \<Rightarrow> string \<Rightarrow> jsval" where
  "partner st x y = orZero (getProp (partnerCount st) (makeKey x y))"

definition opp :: "Stats \<Rightarrow> string \<Rightarrow> string \<Rightarrow> jsval" where
  "opp st x y = orZero (getProp (opponentCount st) (makeKey x y))"

definition gp :: "Stats \<Rightarrow> string \<Rightarrow> jsval" where
  "gp st x = orZero (getProp (gamesPlayed st) x)"

definition matchScore :: "Stats \<Rightarrow> Player \<Rightarrow> Player \<Rightarrow> Player \<Rightarrow> Player \<Rightarrow> jsval" where
  "matchScore st a b c d =
     (let partnerPenalty =
            jsadd (jsmul (Num 14) (partner st (pid a) (pid b)))
                  (jsmul (Num 14) (partner st (pid c) (pid d)));
          opponentPenalty =
            jsmul (Num 3)
              (jsadd (jsadd (jsadd (opp st (pid a) (pid c)) (opp st (pid a) (pid d)))
                            (opp st (pid b) (pid c)))
                     (opp st (pid b) (pid d)));
          playtimeBonus =
            jsmul (Num (- (1 / 4)))
              (jsadd (jsadd (jsadd (gp st (pid a)) (gp st (pid b))) (gp st (pid c)))
                     (gp st (pid d)))
      in jsadd (jsadd partnerPenalty opponentPenalty) playtimeBonus)"

record SplitOption =
  optA :: Player
  optB :: Player
  optC :: Player
  optD :: Player
  optScore :: jsval

definition mkOption :: "Stats \<Rightarrow> Player \<Rightarrow> Player \<Rightarrow> Player \<Rightarrow> Player \<Rightarrow> SplitOption" where
  "mkOption st a b c d =
     \<lparr>optA = a, optB = b, optC = c, optD = d, optScore = matchScore st a b c d\<rparr>"

definition bestSplitForFour :: "Stats \<Rightarrow> Player \<Rightarrow> Player \<Rightarrow> Player \<Rightarrow> Player \<Rightarrow> SplitOption" where
  "bestSplitForFour st p q r s =
     (let options = [mkOption st p q r s, mkOption st p r q s, mkOption st p s q r]
      in hd (sortBy (\<lambda>x y. jssub (optScore x) (optScore y)) options))"

record Best =
  bestGroup :: "Player list"
  bestSplit :: SplitOption
  bestScore :: jsval

text \<open>The body of the innermost loop: the first group, or a strictly lower score, replaces \<open>best\<close>.\<close>

definition considerGroup :: "Stats \<Rightarrow> Player \<Rightarrow> Player \<Rightarrow> Player \<Rightarrow> Player \<Rightarrow> Best option \<Rightarrow> Best option" where
  "considerGroup st p q r s best =
     (let split = bestSplitForFour st p q r s;
          new = \<lparr>bestGroup = [p, q, r, s], bestSplit = split, bestScore = optScore split\<rparr>
      in case best of
           None \<Rightarrow> Some new
         | Some b \<Rightarrow> if jslt (optScore split) (bestScore b) then Some new else best)"

text \<open>The four nested loops over the indices \<open>i < j < k < l\<close> of \<open>remaining\<close>.\<close>

definition findBest :: "Stats \<Rightarrow> Player list \<Rightarrow> Best option" where
  "findBest st remaining =
     (let n = length remaining in
      fold (\<lambda>i. fold (\<lambda>j. fold (\<lambda>k. fold (\<lambda>l.
              considerGroup st (remaining ! i) (remaining ! j) (remaining ! k) (remaining ! l))
            [k + 1..<n]) [j + 1..<n]) [i + 1..<n]) [0..<n] None)"

text \<open>
  The loop that runs down the indices of \<open>remaining\<close> and splices out every player whose
  identifier was chosen.
\<close>

definition removeChosen :: "string set \<Rightarrow> Player list \<Rightarrow> Player list" where
  "removeChosen chosenIds remaining =
     fold (\<lambda>idx rem. if pid (rem ! idx) \<in> chosenIds then take idx rem @ drop (Suc idx) rem else rem)
       (rev [0..<length remaining]) remaining"

definition mkMatch :: "int \<Rightarrow> SplitOption \<Rightarrow> Match" where
  "mkMatch c sp = \<lparr>court = c, teamA = [optA sp, optB sp], teamB = [optC sp, optD sp]\<rparr>"

text \<open>
  The loop over the courts \<open>1, ..., courts\<close>, given as the list of the court numbers still
  to come; both \<^verbatim>\<open>break\<close>s of the source end it.
\<close>

fun courtLoop :: "Stats \<Rightarrow> int list \<Rightarrow> Player list \<Rightarrow> Match list \<Rightarrow> Match list" where
  "courtLoop st [] remaining ms = ms"
| "courtLoop st (c # cs) remaining ms =
     (if length remaining < 4 then ms
      else
        case findBest st remaining of
          None \<Rightarrow> ms
        | Some best \<Rightarrow>
            let chosenIds = set (map pid (bestGroup best));
                remaining' = removeChosen chosenIds remaining
            in courtLoop st cs remaining' (ms @ [mkMatch c (bestSplit best)]))"

text \<open>
  The random shuffle is the parameter \<open>shuffle\<close>: the order in which the sort with the random
  comparator leaves the roster.
\<close>

definition generateFairRound ::
  "(Player list \<Rightarrow> Player list) \<Rightarrow> Player list \<Rightarrow> int \<Rightarrow> SavedRound list
     \<Rightarrow> error + (Match list \<times> Player list)" where
  "generateFairRound shuffle players courtsWanted savedRounds =
     (let n = int (length players);
          possibleCourts = n div 4;
          courts = max 0 (min courtsWanted possibleCourts);
          slots = courts * 4
      in case computeStats players savedRounds of
           Inl e \<Rightarrow> Inl e
         | Inr st \<Rightarrow>
             let shuffled = shuffle players;
                 byGames = sortBy (\<lambda>a b. jssub (gp st (pid a)) (gp st (pid b))) shuffled;
                 active = take (nat slots) byGames;
                 bench = drop (nat slots) byGames
             in Inr (courtLoop st [1..courts] active [], bench))"

section \<open>Notions for the statements\<close>

text \<open>
  A match is well formed when each of its teams holds the two players the loops read; the
  matches, identifiers and keys of a history are those the loops of the source visit.
\<close>

definition wfMatch :: "Match \<Rightarrow> bool" where
  "wfMatch m = (2 \<le> length (teamA m) \<and> 2 \<le> length (teamB m))"

definition historyMatches :: "SavedRound list \<Rightarrow> Match list" where
  "historyMatches savedRounds = concat (map matches savedRounds)"

definition wfHistory :: "SavedRound list \<Rightarrow> bool" where
  "wfHistory savedRounds = list_all wfMatch (historyMatches savedRounds)"

definition ids :: "Match \<Rightarrow> string \<times> string \<times> string \<times> string" where
  "ids m = (pid (teamA m ! 0), pid (teamA m ! 1), pid (teamB m ! 0), pid (teamB m ! 1))"

definition slotIds :: "Match \<Rightarrow> string list" where
  "slotIds m = (case ids m of (a1, a2, b1, b2) \<Rightarrow> [a1, a2, b1, b2])"

definition partnerKeys :: "Match \<Rightarrow> string list" where
  "partnerKeys m = (case ids m of (a1, a2, b1, b2) \<Rightarrow> [makeKey a1 a2, makeKey b1 b2])"

definition opponentKeys :: "Match \<Rightarrow> string list" where
  "opponentKeys m =
     (case ids m of (a1, a2, b1, b2) \<Rightarrow>
        [makeKey a1 b1, makeKey a1 b2, makeKey a2 b1, makeKey a2 b2])"

text \<open>The step of the statistics on a match with two players in each team.\<close>

definition statsStep :: "Match \<Rightarrow> Stats \<Rightarrow> Stats" where
  "statsStep m st =
     \<lparr>gamesPlayed = fold (\<lambda>k g. plusOne g k) (slotIds m) (gamesPlayed st),
      partnerCount = fold (\<lambda>k c. bump c k) (partnerKeys m) (partnerCount st),
      opponentCount = fold (\<lambda>k c. bump c k) (opponentKeys m) (opponentCount st)\<rparr>"

definition historySlots :: "SavedRound list \<Rightarrow> string list" where
  "historySlots savedRounds = concat (map slotIds (historyMatches savedRounds))"

definition appearances :: "SavedRound list \<Rightarrow> string \<Rightarrow> nat" where
  "appearances savedRounds x = count_list (historySlots savedRounds) x"

text \<open>The percentage of \<open>done\<close> pairs among \<open>tot\<close>, rounded and clamped as in the source.\<close>

definition pct :: "int \<Rightarrow> int \<Rightarrow> int" where
  "pct tot done = max 0 (min 100 (round (toDouble (toDouble (of_int done / of_int tot) * 100))))"

text \<open>Rounding a quotient of integers to the nearest integer, to the even one of two.\<close>

definition roundEvenDiv :: "int \<Rightarrow> int \<Rightarrow> int" where
  "roundEvenDiv a b =
     (let f = a div b; r = 2 * (a mod b)
      in if r < b then f else if b < r then f + 1 else if even f then f else f + 1)"

definition historyKeys :: "SavedRound list \<Rightarrow> string list" where
  "historyKeys savedRounds = concat (map partnerKeys (historyMatches savedRounds))"

text \<open>
  The lists of \<open>k\<close> elements of a list, at increasing positions: in the order in which nested
  loops over increasing indices meet them.
\<close>

fun combinations :: "nat \<Rightarrow> 'a list \<Rightarrow> 'a list list" where
  "combinations 0 xs = [[]]"
| "combinations (Suc k) [] = []"
| "combinations (Suc k) (x # xs) = map ((#) x) (combinations k xs) @ combinations (Suc k) xs"

text \<open>A loop over the elements of a list that also sees the elements after each one.\<close>

fun foldTails :: "('a \<Rightarrow> 'a list \<Rightarrow> 's \<Rightarrow> 's) \<Rightarrow> 'a list \<Rightarrow> 's \<Rightarrow> 's" where
  "foldTails f [] s = s"
| "foldTails f (x # xs) s = foldTails f xs (f x xs s)"

text \<open>The body of the innermost loop of the search, on a group given as a list.\<close>

definition considerList :: "Stats \<Rightarrow> Player list \<Rightarrow> Best option \<Rightarrow> Best option" where
  "considerList st g = considerGroup st (g ! 0) (g ! 1) (g ! 2) (g ! 3)"

text \<open>
  The courts in use, the roster in the order of the games played (players with equal games in
  the order of the shuffle), and the active players: the first four times the courts in use.
\<close>

definition usedCourts :: "Player list \<Rightarrow> int \<Rightarrow> int" where
  "usedCourts players courtsWanted = max 0 (min courtsWanted (int (length players) div 4))"

definition ranked :: "(Player list \<Rightarrow> Player list) \<Rightarrow> Player list \<Rightarrow> SavedRound list \<Rightarrow> Player list" where
  "ranked shuffle players savedRounds =
     sort_key (\<lambda>p. appearances savedRounds (pid p)) (shuffle players)"

definition activePlayers ::
  "(Player list \<Rightarrow> Player list) \<Rightarrow> Player list \<Rightarrow> int \<Rightarrow> SavedRound list \<Rightarrow> Player list" where
  "activePlayers shuffle players courtsWanted savedRounds =
     take (nat (usedCourts players courtsWanted * 4)) (ranked shuffle players savedRounds)"

text \<open>The players of a match; the record that the search keeps for a group.\<close>

definition matchPlayers :: "Match \<Rightarrow> Player list" where
  "matchPlayers m = teamA m @ teamB m"

definition mkBest :: "Stats \<Rightarrow> Player list \<Rightarrow> Best" where
  "mkBest st g =
     \<lparr>bestGroup = g, bestSplit = bestSplitForFour st (g ! 0) (g ! 1) (g ! 2) (g ! 3),
      bestScore = optScore (bestSplitForFour st (g ! 0) (g ! 1) (g ! 2) (g ! 3))\<rparr>"

text \<open>The roster after the sort on the games played that follows the shuffle.\<close>

definition byGames :: "Stats \<Rightarrow> Player list \<Rightarrow> Player list" where
  "byGames st shuffled = sortBy (\<lambda>a b. jssub (gp st (pid a)) (gp st (pid b))) shuffled"

text \<open>
  The candidates of a court: the three splits into two teams of every group of four players
  of the pool, the groups in the order of the nested loops and the splits of a group in the
  order of \<^verbatim>\<open>bestSplitForFour\<close>. A candidate \<open>(a, b, c, d)\<close> is the team \<open>a, b\<close> against the
  team \<open>c, d\<close>.
\<close>

type_synonym candidate = "Player \<times> Player \<times> Player \<times> Player"

definition splits :: "Player list \<Rightarrow> candidate list" where
  "splits g = [(g ! 0, g ! 1, g ! 2, g ! 3), (g ! 0, g ! 2, g ! 1, g ! 3), (g ! 0, g ! 3, g ! 1, g ! 2)]"



definition opponentTimes :: "SavedRound list \<Rightarrow> string \<Rightarrow> string \<Rightarrow> nat" where
  "opponentTimes savedRounds x y =
     count_list (concat (map opponentKeys (historyMatches savedRounds))) (makeKey x y)"










section \<open>Players, matches and rounds for the examples\<close>

definition exPlayer :: "string \<Rightarrow> Player" where
  "exPlayer s = \<lparr>pid = s, pname = s\<rparr>"

definition exMatch :: "string \<Rightarrow> string \<Rightarrow> string \<Rightarrow> string \<Rightarrow> Match" where
  "exMatch a b c d = \<lparr>court = 1, teamA = [exPlayer a, exPlayer b], teamB = [exPlayer c, exPlayer d]\<rparr>"

definition exRound :: "Match list \<Rightarrow> SavedRound" where
  "exRound ms = \<lparr>rid = ''r'', createdAt = 0, rcourts = int (length ms), matches = ms, results = Map.empty\<rparr>"

section \<open>A tournament of 21 players on five courts\<close>

text \<open>
  Twenty-one players \<open>a\<close> to \<open>u\<close> play 21 rounds of five matches; in a round the partners are
  the pairs whose character codes have the same sum modulo 21, and the player left over sits
  out. Each round is written as 20 characters, four for each match. The last team of the
  last round, \<open>r\<close> with \<open>s\<close>, has played together before, and \<open>r\<close> with \<open>t\<close> never does.
\<close>

fun decodeMatches :: "int \<Rightarrow> string \<Rightarrow> Match list" where
  "decodeMatches c (a # b # x # y # rest) =
     \<lparr>court = c, teamA = [exPlayer [a], exPlayer [b]], teamB = [exPlayer [x], exPlayer [y]]\<rparr>
       # decodeMatches (c + 1) rest"
| "decodeMatches c _ = []"

fun decodeRounds :: "nat \<Rightarrow> string \<Rightarrow> SavedRound list" where
  "decodeRounds 0 s = []"
| "decodeRounds (Suc n) s = exRound (decodeMatches 1 (take 20 s)) # decodeRounds n (drop 20 s)"

definition roster21 :: "Player list" where
  "roster21 = map (\<lambda>ch. exPlayer [ch]) ''abcdefghijklmnopqrstu''"

definition history21 :: "SavedRound list" where
  "history21 = decodeRounds 21
     ''aqbpcodnemflgkhjrustarbqcpdoenfmglhkijsuasbrcqdpeofngmhliktuatbscrdqepfognhmiljkaubtcsdreqfpgohnimjlbuctdserfqgphoinjmklabcudtesfrgqhpiojnkmacduetfsgrhqipjoknlmadbceuftgshriqjpkolnaebdfugthsirjqkplomnafbecdguhtisjrkqlpmoagbfcehuitjskrlqmpnoahbgcfdeiujtkslrmqnpaibhcgdfjuktlsmrnqopajbichdgefkultmsnroqakbjcidheglumtnsorpqalbkcjdiehfgmuntospramblckdjeifhnuotpsqranbmcldkejfighouptqsaobncmdlekfjgipuqtrsapbocndmelfkgjhiqurs''"

text \<open>The place of a key in that schedule: the round, then the first partner.\<close>

definition keyRank :: "string \<Rightarrow> int" where
  "keyRank k = ((of_char (hd k) + of_char (last k)) mod 21) * 1000 + of_char (hd k)"

section \<open>Properties of the pair key\<close>

lemma makeKey_commute: "makeKey a b = makeKey b a"
  by (auto simp: makeKey_def)

lemma takeWhile_sep:
  "takeWhile (\<lambda>ch. ch \<noteq> CHR ''_'') (xs @ CHR ''_'' # ys) = takeWhile (\<lambda>ch. ch \<noteq> CHR ''_'') xs"
  by (induction xs) auto

lemma takeWhile_clean: "CHR ''_'' \<notin> set xs \<Longrightarrow> takeWhile (\<lambda>ch. ch \<noteq> CHR ''_'') xs = xs"
  by (induction xs) auto

lemma prefix_less: "ys \<noteq> [] \<Longrightarrow> xs < xs @ (ys :: string)"
  by (induction xs) (auto simp: neq_Nil_conv)

lemma sep_first:
  assumes "CHR ''_'' \<notin> set a" and "a @ ''__'' @ b = c @ ''__'' @ d"
  shows "a = c \<or> a < c"
proof -
  have "takeWhile (\<lambda>ch. ch \<noteq> CHR ''_'') (a @ ''__'' @ b) = a"
    using assms(1) by (simp add: takeWhile_sep takeWhile_clean)
  moreover have "takeWhile (\<lambda>ch. ch \<noteq> CHR ''_'') (c @ ''__'' @ d) = takeWhile (\<lambda>ch. ch \<noteq> CHR ''_'') c"
    by (simp add: takeWhile_sep)
  ultimately have a: "a = takeWhile (\<lambda>ch. ch \<noteq> CHR ''_'') c"
    using assms(2) by simp
  have "c = a @ dropWhile (\<lambda>ch. ch \<noteq> CHR ''_'') c"
    by (subst a) simp
  then show ?thesis
    using prefix_less[of "dropWhile (\<lambda>ch. ch \<noteq> CHR ''_'') c" a] by (cases "dropWhile (\<lambda>ch. ch \<noteq> CHR ''_'') c = []") auto
qed

lemma makeKey_second:
  assumes "CHR ''_'' \<notin> set a" and "makeKey a b = makeKey a c"
  shows "b = c"
proof -
  consider (ll) "a < b" "a < c" | (gg) "\<not> a < b" "\<not> a < c" | (lg) "a < b" "\<not> a < c" | (gl) "\<not> a < b" "a < c"
    by blast
  then show ?thesis
  proof cases
    case ll then show ?thesis using assms(2) by (simp add: makeKey_def)
  next
    case gg then show ?thesis using assms(2) by (simp add: makeKey_def)
  next
    case lg
    then have "a @ ''__'' @ b = c @ ''__'' @ a" using assms(2) by (simp add: makeKey_def)
    from sep_first[OF assms(1) this] lg have "a = c" by auto
    with \<open>a @ ''__'' @ b = c @ ''__'' @ a\<close> show ?thesis by simp
  next
    case gl
    then have "a @ ''__'' @ c = b @ ''__'' @ a" using assms(2) by (simp add: makeKey_def)
    from sep_first[OF assms(1) this] gl have "a = b" by auto
    with \<open>a @ ''__'' @ c = b @ ''__'' @ a\<close> show ?thesis by simp
  qed
qed

text \<open>
  Claim C6, as the code has it. The key does not depend on the order of its arguments, for
  all identifiers. Two keys that share the identifier \<open>a\<close> differ when the other identifiers
  differ, provided \<open>a\<close> holds no underscore: the identifiers the application makes are UUIDs,
  which hold none. Without that the second half fails, see the counterexample below.
\<close>

theorem makeKey_symmetric_distinct:
  "a \<noteq> b \<Longrightarrow> b \<noteq> c \<Longrightarrow>
     makeKey a b = makeKey b a \<and> (CHR ''_'' \<notin> set a \<longrightarrow> makeKey a b \<noteq> makeKey a c)"
  using makeKey_second[of a b c] by (auto simp: makeKey_commute)

theorem makeKey_symmetric_distinct_witness:
  "''ann'' \<noteq> ''bob'' \<and> ''bob'' \<noteq> ''cy'' \<and> CHR ''_'' \<notin> set ''ann'' \<and>
     makeKey ''ann'' ''bob'' = makeKey ''bob'' ''ann'' \<and> makeKey ''ann'' ''bob'' \<noteq> makeKey ''ann'' ''cy''"
proof -
  have h1: "''ann'' \<noteq> ''bob''" and h2: "''bob'' \<noteq> ''cy''" and h3: "CHR ''_'' \<notin> set ''ann''"
    by simp_all
  note c = makeKey_symmetric_distinct[OF h1 h2]
  show ?thesis by (intro conjI h1 h2 h3 conjunct1[OF c] mp[OF conjunct2[OF c] h3])
qed

text \<open>
  Claim C6 as stated, for all identifier strings, is false: \<open>''_x_''\<close> with \<open>''x_''\<close> and
  \<open>''_x_''\<close> with \<open>''_x''\<close> both have the key \<open>''_x___x_''\<close>.
\<close>

theorem makeKey_distinct_counterexample:
  "\<not> (\<forall>a b c. a \<noteq> b \<longrightarrow> b \<noteq> c \<longrightarrow> makeKey a b = makeKey b a \<and> makeKey a b \<noteq> makeKey a c)"
proof
  assume H: "\<forall>a b c. a \<noteq> b \<longrightarrow> b \<noteq> c \<longrightarrow> makeKey a b = makeKey b a \<and> makeKey a b \<noteq> makeKey a c"
  have n1: "''_x_'' \<noteq> ''x_''" and n2: "''x_'' \<noteq> ''_x''" by simp_all
  from H[rule_format, OF n1 n2]
  have "makeKey ''_x_'' ''x_'' \<noteq> makeKey ''_x_'' ''_x''" by (rule conjunct2)
  then show False by (simp add: makeKey_def)
qed

section \<open>Properties of the recommended number of rounds\<close>

lemma recommend_covers:
  assumes "4 \<le> n" and "1 \<le> c"
  shows "n * (n - 1) \<le> recommendRoundsPartner n c * 4 * min c (n div 4)"
proof -
  define m where "m = min c (n div 4)"
  have m: "1 \<le> m" using assms by (simp add: m_def)
  have q: "n div 4 \<noteq> 0" using assms by simp
  have r: "recommendRoundsPartner n c = max 1 \<lceil>(of_int (n * (n - 1)) :: rat) / of_int (4 * m)\<rceil>"
    using assms m q by (simp add: recommendRoundsPartner_def Let_def m_def max_def min_def)
  have "(of_int (n * (n - 1)) :: rat) / of_int (4 * m) \<le> of_int \<lceil>(of_int (n * (n - 1)) :: rat) / of_int (4 * m)\<rceil>"
    by (rule le_of_int_ceiling)
  also have "\<dots> \<le> of_int (recommendRoundsPartner n c)"
    by (simp add: r)
  finally have "(of_int (n * (n - 1)) :: rat) \<le> of_int (recommendRoundsPartner n c) * of_int (4 * m)"
    using m by (simp add: pos_divide_le_eq)
  then have "(of_int (n * (n - 1)) :: rat) \<le> of_int (recommendRoundsPartner n c * (4 * m))"
    by simp
  then have "n * (n - 1) \<le> recommendRoundsPartner n c * (4 * m)"
    by (simp only: of_int_le_iff)
  then show ?thesis by (simp add: m_def mult.assoc)
qed

text \<open>
  Claim C4, as the code has it: for a roster of at least four players and at least one
  requested court, the recommended number of rounds times the four slots of each usable
  court reaches the number of pairs (it even reaches twice that number).
\<close>

theorem recommendRounds_lower_bound:
  "4 \<le> n \<Longrightarrow> 1 \<le> c \<Longrightarrow> n * (n - 1) div 2 \<le> recommendRoundsPartner n c * 4 * min c (n div 4)"
proof -
  assume a: "4 \<le> n" "1 \<le> c"
  define x where "x = n * (n - 1)"
  have "0 \<le> x" using a by (simp add: x_def)
  then have "x div 2 \<le> x" by linarith
  then have "n * (n - 1) div 2 \<le> n * (n - 1)" by (simp add: x_def)
  with recommend_covers[OF a] show ?thesis by linarith
qed

theorem recommendRounds_lower_bound_witness:
  "(4::int) \<le> 9 \<and> (1::int) \<le> 2 \<and> (9::int) * (9 - 1) div 2 \<le> recommendRoundsPartner 9 2 * 4 * min 2 (9 div 4)"
proof -
  have h1: "(4::int) \<le> 9" and h2: "(1::int) \<le> 2" by simp_all
  show ?thesis by (intro conjI h1 h2 recommendRounds_lower_bound[OF h1 h2])
qed

text \<open>
  Claim C4 as stated, for every integer court count, is false: with no court requested the
  function still counts one court and recommends three rounds for four players, while the
  product with \<open>min C (N div 4) = 0\<close> is zero.
\<close>

theorem recommendRounds_lower_bound_counterexample:
  "\<not> (\<forall>n c. 4 \<le> n \<longrightarrow> n * (n - 1) div 2 \<le> recommendRoundsPartner n c * 4 * min c (n div 4))"
proof
  assume "\<forall>n c. 4 \<le> n \<longrightarrow> n * (n - 1) div 2 \<le> recommendRoundsPartner n c * 4 * min c (n div 4)"
  then have "(4::int) * (4 - 1) div 2 \<le> recommendRoundsPartner 4 0 * 4 * min 0 (4 div 4)"
    by (metis order_refl)
  then show False by (simp add: recommendRoundsPartner_def)
qed

section \<open>Rounding to a double is monotone\<close>

lemma roundEven_bounds: "\<lfloor>y\<rfloor> \<le> roundEven y" "roundEven y \<le> \<lfloor>y\<rfloor> + 1"
  by (simp_all add: roundEven_def Let_def)

lemma roundEven_of_int: "roundEven (of_int n) = n"
  by (simp add: roundEven_def)

lemma roundEven_mono:
  assumes "y \<le> z"
  shows "roundEven y \<le> roundEven z"
proof (cases "\<lfloor>y\<rfloor> = \<lfloor>z\<rfloor>")
  case True
  with assms have "y - of_int \<lfloor>y\<rfloor> \<le> z - of_int \<lfloor>z\<rfloor>" by simp
  with True show ?thesis by (auto simp: roundEven_def Let_def)
next
  case False
  with assms have "\<lfloor>y\<rfloor> < \<lfloor>z\<rfloor>" by (simp add: floor_mono le_neq_trans)
  then have "roundEven y \<le> \<lfloor>z\<rfloor>" using roundEven_bounds(2)[of y] by simp
  with roundEven_bounds(1)[of z] show ?thesis by simp
qed

lemma quotient_bounds:
  assumes "0 < x"
  shows "2 ^ 52 < x / 2 powi (bitlen (fst (quotient_of x)) - bitlen (snd (quotient_of x)) - 53)"
    and "x / 2 powi (bitlen (fst (quotient_of x)) - bitlen (snd (quotient_of x)) - 53) < 2 ^ 54"
proof -
  obtain p q where pq: "quotient_of x = (p, q)" by (cases "quotient_of x")
  then have q: "0 < q" and x: "x = of_int p / of_int q"
    by (simp_all add: quotient_of_denom_pos quotient_of_div)
  with assms have p: "0 < p" by (simp add: zero_less_divide_iff)
  define bp where "bp = bitlen p"
  define bq where "bq = bitlen q"
  from bitlen_bounds[OF p] have p1: "(2::int) ^ nat (bp - 1) \<le> p" and p2: "p < 2 ^ nat bp"
    by (simp_all add: bp_def)
  from bitlen_bounds[OF q] have q1: "(2::int) ^ nat (bq - 1) \<le> q" and q2: "q < 2 ^ nat bq"
    by (simp_all add: bq_def)
  have bp1: "1 \<le> bp" using p bitlen_eq_zero_iff[of p] bitlen_nonneg[of p] unfolding bp_def by linarith
  have bq1: "1 \<le> bq" using q bitlen_eq_zero_iff[of q] bitlen_nonneg[of q] unfolding bq_def by linarith
  have P1: "(2::rat) powi (bp - 1) \<le> of_int p"
  proof -
    have "(of_int ((2::int) ^ nat (bp - 1)) :: rat) \<le> of_int p" using p1 by (simp only: of_int_le_iff)
    then show ?thesis using bp1 by (simp add: power_int_nonneg_exp)
  qed
  have P2: "of_int p < (2::rat) powi bp"
  proof -
    have "(of_int p :: rat) < of_int ((2::int) ^ nat bp)" using p2 by (simp only: of_int_less_iff)
    then show ?thesis using bp1 by (simp add: power_int_nonneg_exp)
  qed
  have Q1: "(2::rat) powi (bq - 1) \<le> of_int q"
  proof -
    have "(of_int ((2::int) ^ nat (bq - 1)) :: rat) \<le> of_int q" using q1 by (simp only: of_int_le_iff)
    then show ?thesis using bq1 by (simp add: power_int_nonneg_exp)
  qed
  have Q2: "of_int q < (2::rat) powi bq"
  proof -
    have "(of_int q :: rat) < of_int ((2::int) ^ nat bq)" using q2 by (simp only: of_int_less_iff)
    then show ?thesis using bq1 by (simp add: power_int_nonneg_exp)
  qed
  have qpos: "(0::rat) < of_int q" using q by simp
  have lower: "(2::rat) powi (bp - 1) / 2 powi bq < x"
  proof -
    have "(2::rat) powi (bp - 1) / 2 powi bq < 2 powi (bp - 1) / of_int q"
      using Q2 qpos by (intro divide_strict_left_mono) (simp_all)
    also have "\<dots> \<le> of_int p / of_int q" using P1 qpos by (intro divide_right_mono) simp_all
    finally show ?thesis by (simp add: x)
  qed
  have upper: "x < (2::rat) powi bp / 2 powi (bq - 1)"
  proof -
    have "of_int p / of_int q < (2::rat) powi bp / of_int q"
      using P2 qpos by (intro divide_strict_right_mono) simp_all
    also have "\<dots> \<le> 2 powi bp / 2 powi (bq - 1)"
      using Q1 qpos by (intro divide_left_mono mult_pos_pos) simp_all
    finally show ?thesis by (simp add: x)
  qed
  have e1: "(2::rat) powi (bp - 1) / 2 powi bq = 2 ^ 52 * 2 powi (bp - bq - 53)"
  proof -
    have "(2::rat) powi (bp - 1) / 2 powi bq = 2 powi (bp - 1 - bq)" by (simp add: power_int_diff)
    also have "bp - 1 - bq = 52 + (bp - bq - 53)" by simp
    also have "(2::rat) powi (52 + (bp - bq - 53)) = 2 powi 52 * 2 powi (bp - bq - 53)"
      by (rule power_int_add) simp
    finally show ?thesis by simp
  qed
  have e2: "(2::rat) powi bp / 2 powi (bq - 1) = 2 ^ 54 * 2 powi (bp - bq - 53)"
  proof -
    have "(2::rat) powi bp / 2 powi (bq - 1) = 2 powi (bp - (bq - 1))" by (simp add: power_int_diff)
    also have "bp - (bq - 1) = 54 + (bp - bq - 53)" by simp
    also have "(2::rat) powi (54 + (bp - bq - 53)) = 2 powi 54 * 2 powi (bp - bq - 53)"
      by (rule power_int_add) simp
    finally show ?thesis by simp
  qed
  have pos: "(0::rat) < 2 powi (bp - bq - 53)" by simp
  show "2 ^ 52 < x / 2 powi (bitlen (fst (quotient_of x)) - bitlen (snd (quotient_of x)) - 53)"
    using lower pos unfolding e1 by (simp add: pq bp_def bq_def pos_less_divide_eq)
  show "x / 2 powi (bitlen (fst (quotient_of x)) - bitlen (snd (quotient_of x)) - 53) < 2 ^ 54"
    using upper pos unfolding e2 by (simp add: pq bp_def bq_def pos_divide_less_eq)
qed

lemma exponent_bracket:
  assumes "0 < x"
  shows "2 ^ 52 \<le> x / 2 powi exponent x" and "x / 2 powi exponent x < 2 ^ 53"
proof -
  define e where "e = bitlen (fst (quotient_of x)) - bitlen (snd (quotient_of x)) - 53"
  have ex: "exponent x = (if x / 2 powi e < 2 ^ 53 then e else e + 1)"
    by (simp add: exponent_def Let_def e_def split: prod.splits)
  have "(2::rat) powi (e + 1) = 2 powi e * 2 powi 1" by (rule power_int_add) simp
  then have s: "x / 2 powi (e + 1) = x / 2 powi e / 2" by simp
  note b = quotient_bounds[OF assms, folded e_def]
  show "2 ^ 52 \<le> x / 2 powi exponent x"
  proof (cases "x / 2 powi e < 2 ^ 53")
    case True
    with b(1) show ?thesis by (simp add: ex)
  next
    case False
    then have "2 ^ 53 \<le> x / 2 powi e" by simp
    then have "2 ^ 52 \<le> x / 2 powi e / 2" by simp
    with False show ?thesis by (simp only: ex s if_False)
  qed
  show "x / 2 powi exponent x < 2 ^ 53"
  proof (cases "x / 2 powi e < 2 ^ 53")
    case True
    then show ?thesis by (simp add: ex)
  next
    case False
    from b(2) have "x / 2 powi e / 2 < 2 ^ 53" by simp
    with False show ?thesis by (simp only: ex s if_False)
  qed
qed

lemma bracket_unique:
  fixes x y :: rat
  assumes "0 < x" and "2 ^ 52 \<le> x / 2 powi e" and "x / 2 powi e < 2 ^ 53"
    and "0 < y" and "2 ^ 52 \<le> y / 2 powi d" and "y / 2 powi d < 2 ^ 53" and "x \<le> y"
  shows "e \<le> d"
proof (rule ccontr)
  assume "\<not> e \<le> d"
  then have "d + 1 \<le> e" by simp
  then have "(2::rat) powi (d + 1) \<le> 2 powi e" by (intro power_int_increasing) simp_all
  then have "(2::rat) ^ 53 * 2 powi d \<le> 2 ^ 52 * 2 powi e" by (simp add: power_int_add)
  moreover have "y < 2 ^ 53 * 2 powi d" using assms(6) by (simp add: pos_divide_less_eq)
  moreover have "2 ^ 52 * 2 powi e \<le> x" using assms(2) by (simp add: pos_le_divide_eq)
  ultimately show False using assms(7) by linarith
qed

lemma toDouble_eval:
  assumes "0 < x" and "2 ^ 52 \<le> x / 2 powi e" and "x / 2 powi e < 2 ^ 53"
  shows "toDouble x = of_int (roundEven (x / 2 powi e)) * 2 powi e"
proof -
  note b = exponent_bracket[OF assms(1)]
  have "e \<le> exponent x" by (rule bracket_unique[OF assms assms(1) b order_refl])
  moreover have "exponent x \<le> e" by (rule bracket_unique[OF assms(1) b assms order_refl])
  ultimately have "exponent x = e" by simp
  with assms(1) show ?thesis by (simp add: toDouble_def)
qed

lemma toDouble_nonneg: "0 \<le> x \<Longrightarrow> 0 \<le> toDouble x"
proof (cases "x = 0")
  case True
  then show ?thesis by (simp add: toDouble_def)
next
  case False
  assume "0 \<le> x"
  with False have x: "0 < x" by simp
  have "(0::rat) \<le> x / 2 powi exponent x" using x by simp
  then have "0 \<le> \<lfloor>x / 2 powi exponent x\<rfloor>" by (simp only: zero_le_floor)
  with roundEven_bounds(1)[of "x / 2 powi exponent x"] have "0 \<le> roundEven (x / 2 powi exponent x)" by linarith
  with x show ?thesis by (simp add: toDouble_def)
qed

lemma toDouble_mono:
  assumes "0 \<le> x" and "x \<le> y"
  shows "toDouble x \<le> toDouble y"
proof (cases "x = 0")
  case True
  with assms toDouble_nonneg[of y] show ?thesis by (simp add: toDouble_def)
next
  case False
  with assms have x: "0 < x" and y: "0 < y" by simp_all
  let ?e = "exponent x" and ?d = "exponent y"
  note bx = exponent_bracket[OF x] and by' = exponent_bracket[OF y]
  have tx: "toDouble x = of_int (roundEven (x / 2 powi ?e)) * 2 powi ?e"
    and ty: "toDouble y = of_int (roundEven (y / 2 powi ?d)) * 2 powi ?d"
    using x y by (simp_all add: toDouble_def)
  have ed: "?e \<le> ?d" by (rule bracket_unique[OF x bx y by' assms(2)])
  show ?thesis
  proof (cases "?e = ?d")
    case True
    have "x / 2 powi ?d \<le> y / 2 powi ?d" using assms(2) by (intro divide_right_mono) simp_all
    then have "roundEven (x / 2 powi ?d) \<le> roundEven (y / 2 powi ?d)" by (rule roundEven_mono)
    then have "(of_int (roundEven (x / 2 powi ?d)) :: rat) * 2 powi ?d \<le> of_int (roundEven (y / 2 powi ?d)) * 2 powi ?d"
      by (intro mult_right_mono) simp_all
    with True show ?thesis by (simp add: tx ty)
  next
    case False
    with ed have lt: "?e + 1 \<le> ?d" by simp
    have "roundEven (x / 2 powi ?e) \<le> roundEven (of_int (2 ^ 53))"
      using bx(2) by (intro roundEven_mono) simp
    then have "roundEven (x / 2 powi ?e) \<le> 2 ^ 53" by (simp only: roundEven_of_int)
    then have "(of_int (roundEven (x / 2 powi ?e)) :: rat) \<le> 2 ^ 53"
      by (metis of_int_le_iff of_int_numeral of_int_power)
    then have "toDouble x \<le> 2 ^ 53 * 2 powi ?e"
      unfolding tx by (intro mult_right_mono) simp_all
    also have "\<dots> = 2 ^ 52 * 2 powi (?e + 1)" by (simp add: power_int_add)
    also have "\<dots> \<le> 2 ^ 52 * 2 powi ?d"
      using lt by (intro mult_left_mono power_int_increasing) simp_all
    also have "\<dots> \<le> toDouble y"
    proof -
      have "roundEven (of_int (2 ^ 52)) \<le> roundEven (y / 2 powi ?d)"
        using by'(1) by (intro roundEven_mono) simp
      then have "2 ^ 52 \<le> roundEven (y / 2 powi ?d)" by (simp only: roundEven_of_int)
      then have "(2::rat) ^ 52 \<le> of_int (roundEven (y / 2 powi ?d))"
        by (metis of_int_le_iff of_int_numeral of_int_power)
      then show ?thesis unfolding ty by (intro mult_right_mono) simp_all
    qed
    finally show ?thesis .
  qed
qed

lemma roundEven_frac:
  assumes "0 < b"
  shows "roundEven (of_int a / of_int b) = roundEvenDiv a b"
proof -
  have f: "\<lfloor>(of_int a / of_int b :: rat)\<rfloor> = a div b" by (rule floor_divide_of_int_eq)
  have "a = a div b * b + a mod b" by simp
  then have "(of_int a :: rat) = of_int (a div b) * of_int b + of_int (a mod b)"
    by (metis of_int_add of_int_mult)
  then have "(of_int a / of_int b :: rat) = of_int (a div b) + of_int (a mod b) / of_int b"
    using assms by (simp add: field_simps)
  then have r: "(of_int a / of_int b :: rat) - of_int (a div b) = of_int (a mod b) / of_int b"
    by simp
  have lt: "(of_int (a mod b) / of_int b :: rat) < 1 / 2 \<longleftrightarrow> 2 * (a mod b) < b"
  proof -
    have "(of_int (a mod b) / of_int b :: rat) < 1 / 2 \<longleftrightarrow> (of_int (2 * (a mod b)) :: rat) < of_int b"
      using assms by (simp add: field_simps)
    then show ?thesis by (simp only: of_int_less_iff)
  qed
  have gt: "1 / 2 < (of_int (a mod b) / of_int b :: rat) \<longleftrightarrow> b < 2 * (a mod b)"
  proof -
    have "1 / 2 < (of_int (a mod b) / of_int b :: rat) \<longleftrightarrow> (of_int b :: rat) < of_int (2 * (a mod b))"
      using assms by (simp add: field_simps)
    then show ?thesis by (simp only: of_int_less_iff)
  qed
  show ?thesis
    unfolding roundEven_def roundEvenDiv_def Let_def f r lt gt ..
qed

lemma toDouble_frac:
  assumes "0 < a" and "0 < b" and "2 ^ 52 * b \<le> a * 2 ^ k" and "a * 2 ^ k < 2 ^ 53 * b"
  shows "toDouble (of_int a / of_int b) = of_int (roundEvenDiv (a * 2 ^ k) b) / 2 ^ k"
proof -
  let ?x = "of_int a / of_int b :: rat"
  have x: "0 < ?x" using assms(1,2) by simp
  have sc: "?x / 2 powi (- int k) = of_int (a * 2 ^ k) / of_int b"
    by (simp add: power_int_minus field_simps)
  have "(of_int (2 ^ 52 * b) :: rat) \<le> of_int (a * 2 ^ k)"
    using assms(3) by (simp only: of_int_le_iff)
  then have lo: "2 ^ 52 \<le> ?x / 2 powi (- int k)"
    unfolding sc using assms(2) by (simp add: pos_le_divide_eq)
  have "(of_int (a * 2 ^ k) :: rat) < of_int (2 ^ 53 * b)"
    using assms(4) by (simp only: of_int_less_iff)
  then have hi: "?x / 2 powi (- int k) < 2 ^ 53"
    unfolding sc using assms(2) by (simp add: pos_divide_less_eq)
  have "toDouble ?x = of_int (roundEven (?x / 2 powi (- int k))) * 2 powi (- int k)"
    by (rule toDouble_eval[OF x lo hi])
  also have "\<dots> = of_int (roundEvenDiv (a * 2 ^ k) b) / 2 ^ k"
    unfolding sc roundEven_frac[OF assms(2)] by (simp add: power_int_minus field_simps)
  finally show ?thesis .
qed

lemma round_frac:
  assumes "0 < b"
  shows "round (of_int a / of_int b :: rat) = (2 * a + b) div (2 * b)"
proof -
  have "(of_int a / of_int b :: rat) + 1 / 2 = of_int (2 * a + b) / of_int (2 * b)"
    using assms by (simp add: field_simps)
  then show ?thesis unfolding round_def by (simp only: floor_divide_of_int_eq)
qed

text \<open>The percentage from the two roundings, computed on integers.\<close>

lemma pct_eval:
  assumes "0 < d" and "0 < t"
    and "2 ^ 52 * t \<le> d * 2 ^ k" and "d * 2 ^ k < 2 ^ 53 * t"
    and "2 ^ 52 * 2 ^ k \<le> roundEvenDiv (d * 2 ^ k) t * 100 * 2 ^ j"
    and "roundEvenDiv (d * 2 ^ k) t * 100 * 2 ^ j < 2 ^ 53 * 2 ^ k"
  shows "pct t d =
     max 0 (min 100
       ((2 * roundEvenDiv (roundEvenDiv (d * 2 ^ k) t * 100 * 2 ^ j) (2 ^ k) + 2 ^ j)
          div (2 * 2 ^ j)))"
proof -
  define m where "m = roundEvenDiv (d * 2 ^ k) t"
  define n where "n = roundEvenDiv (m * 100 * 2 ^ j) (2 ^ k)"
  have a: "toDouble (of_int d / of_int t) = of_int m / 2 ^ k"
    unfolding m_def by (rule toDouble_frac[OF assms(1-4)])
  have mpos: "0 < m * 100"
  proof -
    have "(0::int) < 2 ^ 52 * 2 ^ k" by simp
    with assms(5) have "0 < m * 100 * 2 ^ j" unfolding m_def by linarith
    then show ?thesis by (simp add: zero_less_mult_iff)
  qed
  have "toDouble (of_int m / 2 ^ k * 100) = toDouble (of_int (m * 100) / of_int (2 ^ k))"
    by simp
  also have "\<dots> = of_int n / 2 ^ j"
    unfolding n_def using assms(5,6) by (intro toDouble_frac mpos) (simp_all add: m_def)
  finally have b: "toDouble (of_int m / 2 ^ k * 100) = of_int n / of_int (2 ^ j)" by simp
  have "round (of_int n / of_int (2 ^ j) :: rat) = (2 * n + 2 ^ j) div (2 * 2 ^ j)"
    by (rule round_frac) simp
  then show ?thesis
    unfolding pct_def a b by (simp only: n_def m_def)
qed

text \<open>
  Sixteen players and 69 pairs: the exact percentage is 57.5, the doubles give
  57.49999999999999, and the source shows 57.
\<close>

lemma pct_120_69: "pct 120 69 = 57"
  by (subst pct_eval[where k = 53 and j = 47]) (simp_all add: roundEvenDiv_def Let_def)

lemma pct_210_209: "pct 210 209 = 100"
  by (subst pct_eval[where k = 53 and j = 46]) (simp_all add: roundEvenDiv_def Let_def)

lemma pct_6_2: "pct 6 2 = 33"
  by (subst pct_eval[where k = 54 and j = 47]) (simp_all add: roundEvenDiv_def Let_def)

lemma pct_6_4: "pct 6 4 = 67"
  by (subst pct_eval[where k = 53 and j = 46]) (simp_all add: roundEvenDiv_def Let_def)

lemma pct_6_1: "pct 6 1 = 17"
  by (subst pct_eval[where k = 55 and j = 48]) (simp_all add: roundEvenDiv_def Let_def)

lemma pct_zero: "0 < t \<Longrightarrow> pct t 0 = 0"
  by (simp add: pct_def toDouble_def)

lemma pct_mono: "0 < tot \<Longrightarrow> 0 \<le> d1 \<Longrightarrow> d1 \<le> d2 \<Longrightarrow> pct tot d1 \<le> pct tot d2"
proof -
  assume t: "0 < tot" and d0: "0 \<le> d1" and d: "d1 \<le> d2"
  have q0: "(0::rat) \<le> of_int d1 / of_int tot" using t d0 by simp
  have "(of_int d1 / of_int tot :: rat) \<le> of_int d2 / of_int tot"
    using t d by (simp add: divide_right_mono)
  then have "toDouble (of_int d1 / of_int tot) \<le> toDouble (of_int d2 / of_int tot)"
    by (rule toDouble_mono[OF q0])
  then have "toDouble (of_int d1 / of_int tot) * 100 \<le> toDouble (of_int d2 / of_int tot) * 100"
    by simp
  moreover have "0 \<le> toDouble (of_int d1 / of_int tot) * 100"
    using toDouble_nonneg[OF q0] by simp
  ultimately have "toDouble (toDouble (of_int d1 / of_int tot) * 100)
      \<le> toDouble (toDouble (of_int d2 / of_int tot) * 100)"
    by (intro toDouble_mono)
  then have "round (toDouble (toDouble (of_int d1 / of_int tot) * 100))
      \<le> round (toDouble (toDouble (of_int d2 / of_int tot) * 100))"
    by (rule round_mono)
  then show ?thesis by (simp add: pct_def)
qed

section \<open>The statistics as counts\<close>

lemma matchIds_wf: "wfMatch m \<Longrightarrow> matchIds m = Inr (ids m)"
  by (auto simp: wfMatch_def matchIds_def idAt_def ids_def)

lemma matchIds_not_wf: "\<not> wfMatch m \<Longrightarrow> matchIds m = Inl TypeError"
  by (auto simp: wfMatch_def matchIds_def idAt_def)

lemma forEachE_append:
  "forEachE f (xs @ ys) s = (case forEachE f xs s of Inl e \<Rightarrow> Inl e | Inr s' \<Rightarrow> forEachE f ys s')"
  by (induction xs arbitrary: s) (auto split: sum.splits)

lemma forEachE_concat:
  "forEachE (\<lambda>x. forEachE f (g x)) xs s = forEachE f (concat (map g xs)) s"
  by (induction xs arbitrary: s) (auto simp: forEachE_append split: sum.splits)

lemma forEachE_pure:
  "(\<And>x s. x \<in> set xs \<Longrightarrow> f x s = Inr (h x s)) \<Longrightarrow> forEachE f xs s = Inr (fold h xs s)"
  by (induction xs arbitrary: s) auto

lemma forEachE_fails:
  "x \<in> set xs \<Longrightarrow> (\<And>s. f x s = Inl e) \<Longrightarrow> (\<And>y s e'. f y s = Inl e' \<Longrightarrow> e' = e) \<Longrightarrow> forEachE f xs s = Inl e"
  by (induction xs arbitrary: s) (auto split: sum.splits)

lemma statsMatch_wf: "wfMatch m \<Longrightarrow> statsMatch m st = Inr (statsStep m st)"
  by (simp add: statsMatch_def matchIds_wf statsStep_def slotIds_def partnerKeys_def
      opponentKeys_def Let_def split: prod.splits)

lemma statsMatch_not_wf: "\<not> wfMatch m \<Longrightarrow> statsMatch m st = Inl TypeError"
  by (simp add: statsMatch_def matchIds_not_wf)

lemma computeStats_matches:
  "computeStats players savedRounds =
     forEachE statsMatch (historyMatches savedRounds) (initStats players)"
  by (simp add: computeStats_def historyMatches_def forEachE_concat)

lemma computeStats_wf:
  assumes "wfHistory savedRounds"
  shows "computeStats players savedRounds =
           Inr (fold statsStep (historyMatches savedRounds) (initStats players))"
  unfolding computeStats_matches
  using assms by (intro forEachE_pure statsMatch_wf) (simp add: wfHistory_def list_all_iff)

lemma computeStats_not_wf:
  assumes "\<not> wfHistory savedRounds"
  shows "computeStats players savedRounds = Inl TypeError"
proof -
  from assms obtain m where m: "m \<in> set (historyMatches savedRounds)" "\<not> wfMatch m"
    by (auto simp: wfHistory_def list_all_iff)
  have "forEachE statsMatch (historyMatches savedRounds) (initStats players) = Inl TypeError"
  proof (rule forEachE_fails[OF m(1)])
    show "\<And>s. statsMatch m s = Inl TypeError" using m(2) by (simp add: statsMatch_not_wf)
    show "\<And>y s e'. statsMatch y s = Inl e' \<Longrightarrow> e' = TypeError" by (metis error.exhaust)
  qed
  then show ?thesis by (simp add: computeStats_matches)
qed

lemma computeStats_Inr_iff:
  "computeStats players savedRounds = Inr st \<longleftrightarrow>
     wfHistory savedRounds \<and> st = fold statsStep (historyMatches savedRounds) (initStats players)"
  by (cases "wfHistory savedRounds") (auto simp: computeStats_wf computeStats_not_wf)

text \<open>The three maps after the loop, each a fold of its own over the keys of the history.\<close>

lemma gamesPlayed_fold:
  "gamesPlayed (fold statsStep ms st) =
     fold (\<lambda>k g. plusOne g k) (concat (map slotIds ms)) (gamesPlayed st)"
  by (induction ms arbitrary: st) (simp_all add: statsStep_def)



text \<open>Reading and writing the plain objects.\<close>

lemma proto_not_plain: "x \<notin> set protoNames \<Longrightarrow> x \<noteq> ''__proto__''"
  by (auto simp: protoNames_def)

lemma getProp_plain: "x \<notin> set protoNames \<Longrightarrow> getProp m x = m x"
  by (simp add: getProp_def split: option.splits)

lemma getProp_own: "m x = Some v \<Longrightarrow> getProp m x = Some v"
  by (simp add: getProp_def)



lemma plusOne_same:
  "k \<noteq> ''__proto__'' \<Longrightarrow>
     plusOne g k k = Some (jsadd (case getProp g k of None \<Rightarrow> NaN | Some v \<Rightarrow> v) (Num 1))"
  by (simp add: plusOne_def setProp_def)

lemma plusOne_other: "x \<noteq> k \<Longrightarrow> plusOne g k x = g x"
  by (simp add: plusOne_def setProp_def)

lemma plusOne_proto: "plusOne g ''__proto__'' = g"
  by (simp add: plusOne_def setProp_def)




lemma fold_plusOne_Num:
  assumes "x \<noteq> ''__proto__''"
  shows "g x = Some (Num n) \<Longrightarrow>
     fold (\<lambda>k g. plusOne g k) ks g x = Some (Num (n + of_nat (count_list ks x)))"
proof (induction ks arbitrary: g n)
  case Nil
  then show ?case by simp
next
  case (Cons k ks)
  show ?case
  proof (cases "k = x")
    case True
    have "plusOne g k x = Some (Num (n + 1))"
      using True Cons.prems plusOne_same[OF assms, of g] by (simp add: getProp_own)
    with Cons.IH[of "plusOne g k" "n + 1"] True show ?thesis by (simp add: add.assoc)
  next
    case False
    then have "plusOne g k x = Some (Num n)"
      using Cons.prems by (simp add: plusOne_other)
    with Cons.IH[of "plusOne g k" n] False show ?thesis by simp
  qed
qed

lemma fold_plusOne_NaN:
  "g x = Some NaN \<Longrightarrow> fold (\<lambda>k g. plusOne g k) ks g x = Some NaN"
proof (induction ks arbitrary: g)
  case Nil
  then show ?case by simp
next
  case (Cons k ks)
  have "plusOne g k x = Some NaN"
  proof (cases "k = x")
    case True
    show ?thesis
    proof (cases "x = ''__proto__''")
      case True
      with \<open>k = x\<close> Cons.prems show ?thesis by (simp add: plusOne_proto)
    next
      case False
      with \<open>k = x\<close> Cons.prems plusOne_same[OF False, of g] show ?thesis
        by (simp add: getProp_own)
    qed
  next
    case False
    with Cons.prems show ?thesis by (simp add: plusOne_other)
  qed
  with Cons.IH[of "plusOne g k"] show ?case by simp
qed

lemma fold_plusOne_None:
  assumes "x \<notin> set protoNames"
  shows "g x = None \<Longrightarrow>
     fold (\<lambda>k g. plusOne g k) ks g x = (if x \<in> set ks then Some NaN else None)"
proof (induction ks arbitrary: g)
  case Nil
  then show ?case by simp
next
  case (Cons k ks)
  note np = proto_not_plain[OF assms]
  show ?case
  proof (cases "k = x")
    case True
    have "plusOne g k x = Some NaN"
      using True Cons.prems plusOne_same[OF np, of g] by (simp add: getProp_plain[OF assms])
    with fold_plusOne_NaN[of "plusOne g k" x ks] True show ?thesis by simp
  next
    case False
    then have "plusOne g k x = None"
      using Cons.prems by (simp add: plusOne_other)
    with Cons.IH[of "plusOne g k"] False show ?thesis by simp
  qed
qed

lemma initial_gamesPlayed:
  "fold (\<lambda>p g. setProp g (pid p) (Num 0)) players g x =
     (if x \<in> pid ` set players \<and> x \<noteq> ''__proto__'' then Some (Num 0) else g x)"
  by (induction players arbitrary: g) (auto simp: setProp_def)

lemma gamesPlayed_init:
  "gamesPlayed (initStats players) x =
     (if x \<in> pid ` set players \<and> x \<noteq> ''__proto__'' then Some (Num 0) else None)"
  by (simp add: initStats_def initial_gamesPlayed)

lemma wfMatch_exMatch: "wfMatch (exMatch a b c d)"
  by (simp add: wfMatch_def exMatch_def)

lemma ids_exMatch: "ids (exMatch a b c d) = (a, b, c, d)"
  by (simp add: ids_def exMatch_def exPlayer_def)

lemma matches_exRound: "matches (exRound ms) = ms"
  by (simp add: exRound_def)

lemma pid_exPlayer: "pid (exPlayer s) = s"
  by (simp add: exPlayer_def)

section \<open>Games played of the roster and of other identifiers\<close>

lemma gamesPlayed_roster:
  assumes "computeStats players savedRounds = Inr st" and "x \<in> pid ` set players"
    and "x \<noteq> ''__proto__''"
  shows "gamesPlayed st x = Some (Num (of_nat (appearances savedRounds x)))"
proof -
  from assms(1) have st: "st = fold statsStep (historyMatches savedRounds) (initStats players)"
    by (simp add: computeStats_Inr_iff)
  have "gamesPlayed (initStats players) x = Some (Num 0)"
    using assms(2,3) by (simp add: gamesPlayed_init)
  from fold_plusOne_Num[OF assms(3), of "gamesPlayed (initStats players)" 0, OF this]
  show ?thesis by (simp add: st gamesPlayed_fold appearances_def historySlots_def)
qed

lemma gamesPlayed_orphan:
  assumes "computeStats players savedRounds = Inr st" and "x \<notin> pid ` set players"
    and "x \<notin> set protoNames"
  shows "gamesPlayed st x = (if x \<in> set (historySlots savedRounds) then Some NaN else None)"
proof -
  from assms(1) have st: "st = fold statsStep (historyMatches savedRounds) (initStats players)"
    by (simp add: computeStats_Inr_iff)
  have "gamesPlayed (initStats players) x = None"
    using assms(2) by (simp add: gamesPlayed_init)
  from fold_plusOne_None[OF assms(3), of "gamesPlayed (initStats players)", OF this]
  show ?thesis by (simp add: st gamesPlayed_fold historySlots_def)
qed

text \<open>
  Claim C9, as the code has it. When the statistics are computed, every identifier of the
  roster other than \<^verbatim>\<open>__proto__\<close> has an entry in the games-played map, and the entry is the
  number of slots of the history's matches that the identifier fills: it does not depend on
  the other identifiers, of the roster or not, that the history mentions. The key
  \<^verbatim>\<open>__proto__\<close> never becomes an entry of the plain object.
\<close>

theorem computeStats_roster_entries:
  "computeStats players savedRounds = Inr st \<Longrightarrow> p \<in> set players \<Longrightarrow>
     pid p \<noteq> ''__proto__'' \<Longrightarrow>
     gamesPlayed st (pid p) = Some (Num (of_nat (appearances savedRounds (pid p))))"
  by (rule gamesPlayed_roster) auto

theorem computeStats_roster_entries_witness:
  "\<exists>st. computeStats [exPlayer ''ann''] [exRound [exMatch ''ann'' ''bob'' ''cy'' ''dan'']] = Inr st
     \<and> exPlayer ''ann'' \<in> set [exPlayer ''ann'']
     \<and> pid (exPlayer ''ann'') \<noteq> ''__proto__''
     \<and> gamesPlayed st (pid (exPlayer ''ann'')) = Some (Num 1)"
proof -
  let ?h = "[exRound [exMatch ''ann'' ''bob'' ''cy'' ''dan'']]"
  have wf: "wfHistory ?h"
    by (simp add: wfHistory_def historyMatches_def matches_exRound wfMatch_exMatch)
  have c: "computeStats [exPlayer ''ann''] ?h =
             Inr (fold statsStep (historyMatches ?h) (initStats [exPlayer ''ann'']))"
    by (rule computeStats_wf[OF wf])
  have m: "exPlayer ''ann'' \<in> set [exPlayer ''ann'']" by simp
  have n: "pid (exPlayer ''ann'') \<noteq> ''__proto__''" by (simp add: pid_exPlayer)
  have a: "appearances ?h (pid (exPlayer ''ann'')) = 1"
    by (simp add: appearances_def historySlots_def historyMatches_def matches_exRound
        slotIds_def ids_exMatch pid_exPlayer)
  have "gamesPlayed (fold statsStep (historyMatches ?h) (initStats [exPlayer ''ann'']))
          (pid (exPlayer ''ann'')) = Some (Num 1)"
    using computeStats_roster_entries[OF c m n] by (simp only: a of_nat_1)
  with c m n show ?thesis by (intro exI conjI)
qed

text \<open>
  Claim C9 as stated is false in its first half: an identifier that a match of the history
  mentions and the roster lacks gets an entry all the same. The entry is \<^verbatim>\<open>NaN\<close>, the value
  of \<^verbatim>\<open>undefined + 1\<close>.
\<close>

theorem computeStats_orphan_counterexample:
  "(case computeStats [exPlayer ''ann''] [exRound [exMatch ''ann'' ''bob'' ''cy'' ''dan'']] of
      Inl e \<Rightarrow> None | Inr st \<Rightarrow> gamesPlayed st ''bob'') = Some NaN
   \<and> ''bob'' \<notin> pid ` set [exPlayer ''ann'']"
proof -
  let ?h = "[exRound [exMatch ''ann'' ''bob'' ''cy'' ''dan'']]"
  have wf: "wfHistory ?h"
    by (simp add: wfHistory_def historyMatches_def matches_exRound wfMatch_exMatch)
  have c: "computeStats [exPlayer ''ann''] ?h =
             Inr (fold statsStep (historyMatches ?h) (initStats [exPlayer ''ann'']))"
    by (rule computeStats_wf[OF wf])
  have n: "''bob'' \<notin> pid ` set [exPlayer ''ann'']" by (simp add: pid_exPlayer)
  have s: "''bob'' \<in> set (historySlots ?h)"
    by (simp add: historySlots_def historyMatches_def matches_exRound slotIds_def ids_exMatch)
  have pl: "''bob'' \<notin> set protoNames" by (simp add: protoNames_def)
  from gamesPlayed_orphan[OF c n pl] s n show ?thesis by (simp add: c)
qed

section \<open>Rosters too small for a court\<close>

lemma mset_insertBy: "mset (insertBy cmp x xs) = add_mset x (mset xs)"
  by (induction xs) auto

lemma mset_sortBy: "mset (sortBy cmp xs) = mset xs"
  by (induction xs) (auto simp: sortBy_def mset_insertBy)

lemma generateFairRound_small:
  assumes "length players < 4" and "computeStats players savedRounds = Inr st"
  shows "generateFairRound shuffle players courtsWanted savedRounds =
           Inr ([], sortBy (\<lambda>a b. jssub (gp st (pid a)) (gp st (pid b))) (shuffle players))"
proof -
  have "int (length players) div 4 = 0" using assms(1) by simp
  then have "max 0 (min courtsWanted (int (length players) div 4)) = 0" by simp
  then show ?thesis
    by (simp add: generateFairRound_def Let_def assms(2))
qed

text \<open>
  Claim C7, as the code has it. For a roster of fewer than four players, any requested
  number of courts and any history whose matches have two players in each team, the
  generator raises nothing and returns no match and the whole roster, in some order, as the
  bench, whatever the shuffle; and the recommended number of rounds is zero.
\<close>

theorem small_roster_no_round:
  "length players < 4 \<Longrightarrow> wfHistory savedRounds \<Longrightarrow> mset (shuffle players) = mset players \<Longrightarrow>
     (\<exists>bench. generateFairRound shuffle players courtsWanted savedRounds = Inr ([], bench)
        \<and> mset bench = mset players)
     \<and> recommendRoundsPartner (int (length players)) courts = 0"
proof -
  assume small: "length players < 4" and wf: "wfHistory savedRounds"
    and sh: "mset (shuffle players) = mset players"
  let ?st = "fold statsStep (historyMatches savedRounds) (initStats players)"
  have "generateFairRound shuffle players courtsWanted savedRounds =
          Inr ([], sortBy (\<lambda>a b. jssub (gp ?st (pid a)) (gp ?st (pid b))) (shuffle players))"
    by (rule generateFairRound_small[OF small computeStats_wf[OF wf]])
  moreover have "mset (sortBy (\<lambda>a b. jssub (gp ?st (pid a)) (gp ?st (pid b))) (shuffle players))
                   = mset players"
    by (simp add: mset_sortBy sh)
  moreover have "recommendRoundsPartner (int (length players)) courts = 0"
    using small by (simp add: recommendRoundsPartner_def)
  ultimately show ?thesis by blast
qed

theorem small_roster_no_round_witness:
  "length [exPlayer ''ann'', exPlayer ''bob'', exPlayer ''cy''] < 4
   \<and> wfHistory [exRound [exMatch ''ann'' ''bob'' ''cy'' ''dan'']]
   \<and> mset (rev [exPlayer ''ann'', exPlayer ''bob'', exPlayer ''cy''])
        = mset [exPlayer ''ann'', exPlayer ''bob'', exPlayer ''cy'']
   \<and> (\<exists>bench. generateFairRound rev [exPlayer ''ann'', exPlayer ''bob'', exPlayer ''cy''] 2
                  [exRound [exMatch ''ann'' ''bob'' ''cy'' ''dan'']] = Inr ([], bench)
          \<and> mset bench = mset [exPlayer ''ann'', exPlayer ''bob'', exPlayer ''cy''])
   \<and> recommendRoundsPartner (int (length [exPlayer ''ann'', exPlayer ''bob'', exPlayer ''cy''])) 2 = 0"
proof -
  let ?ps = "[exPlayer ''ann'', exPlayer ''bob'', exPlayer ''cy'']"
  let ?h = "[exRound [exMatch ''ann'' ''bob'' ''cy'' ''dan'']]"
  have h1: "length ?ps < 4" by simp
  have h2: "wfHistory ?h"
    by (simp add: wfHistory_def historyMatches_def matches_exRound wfMatch_exMatch)
  have h3: "mset (rev ?ps) = mset ?ps" by (rule mset_rev)
  note c = small_roster_no_round[of ?ps ?h rev 2 2, OF h1 h2 h3]
  show ?thesis by (intro conjI h1 h2 h3 conjunct1[OF c] conjunct2[OF c])
qed

text \<open>
  Claim C7 as stated, for every history and any input shape, is false: the statistics are
  computed before the number of courts is looked at, and a match of the history with an empty
  team makes \<^verbatim>\<open>m.teamA[0].id\<close> raise a \<^verbatim>\<open>TypeError\<close>, here for the empty roster.
\<close>

theorem malformed_history_counterexample:
  "length ([] :: Player list) < 4
   \<and> generateFairRound (\<lambda>ps. ps) [] 1 [exRound [\<lparr>court = 1, teamA = [], teamB = []\<rparr>]]
       = Inl TypeError"
proof -
  have "\<not> wfHistory [exRound [\<lparr>court = 1, teamA = [], teamB = []\<rparr>]]"
    by (simp add: wfHistory_def historyMatches_def matches_exRound wfMatch_def)
  then have "computeStats [] [exRound [\<lparr>court = 1, teamA = [], teamB = []\<rparr>]] = Inl TypeError"
    by (rule computeStats_not_wf)
  then show ?thesis by (simp add: generateFairRound_def)
qed

section \<open>Partner coverage grows with the history\<close>

lemma seenMatch_grows:
  "seenMatch m S = Inr S' \<Longrightarrow> S \<subseteq> S' \<and> (finite S \<longrightarrow> finite S')"
  by (auto simp: seenMatch_def Let_def split: sum.splits prod.splits)

lemma seen_grows:
  "forEachE seenMatch ms S = Inr S' \<Longrightarrow> S \<subseteq> S' \<and> (finite S \<longrightarrow> finite S')"
proof (induction ms arbitrary: S)
  case Nil
  then show ?case by simp
next
  case (Cons m ms)
  from Cons.prems obtain S1 where s1: "seenMatch m S = Inr S1" and r: "forEachE seenMatch ms S1 = Inr S'"
    by (auto split: sum.splits)
  from seenMatch_grows[OF s1] Cons.IH[OF r] show ?case by blast
qed

lemma partnerCoverage_many:
  assumes "2 \<le> length players"
  shows "partnerCoverage players savedRounds =
     (case forEachE seenMatch (historyMatches savedRounds) {} of
        Inl e \<Rightarrow> Inl e
      | Inr S \<Rightarrow>
          (let tot = (int (length players) * (int (length players) - 1)) div 2 in
          Inr \<lparr>complete = (tot \<le> int (card S)),
               percent = pct tot (int (card S)),
               missingPairs = max 0 (tot - int (card S)),
               totalPairs = tot\<rparr>))"
  using assms
  by (simp add: partnerCoverage_def Let_def forEachE_concat historyMatches_def pct_def
      split: sum.splits)

lemma total_pos: "2 \<le> length (players :: Player list) \<Longrightarrow> 0 < (int (length players) * (int (length players) - 1)) div 2"
proof -
  assume "2 \<le> length players"
  then have "2 \<le> int (length players)" by simp
  then have "2 * 1 \<le> int (length players) * (int (length players) - 1)"
    by (intro mult_mono) simp_all
  then show ?thesis by simp
qed

lemma seen_wf:
  "list_all wfMatch ms \<Longrightarrow>
     forEachE seenMatch ms S = Inr (S \<union> set (concat (map partnerKeys ms)))"
proof (induction ms arbitrary: S)
  case Nil
  then show ?case by simp
next
  case (Cons m ms)
  then have "seenMatch m S = Inr (S \<union> set (partnerKeys m))"
    by (auto simp: seenMatch_def matchIds_wf partnerKeys_def Let_def split: prod.splits)
  with Cons show ?case by (simp add: Un_assoc)
qed

lemma partnerCoverage_wf:
  assumes "2 \<le> length players" and "wfHistory savedRounds"
  shows "partnerCoverage players savedRounds =
     (let tot = (int (length players) * (int (length players) - 1)) div 2;
          done = int (card (set (historyKeys savedRounds)))
      in Inr \<lparr>complete = (tot \<le> done), percent = pct tot done,
               missingPairs = max 0 (tot - done), totalPairs = tot\<rparr>)"
  using assms(2) seen_wf[of "historyMatches savedRounds" "{}"]
  by (simp add: partnerCoverage_many[OF assms(1)] wfHistory_def historyKeys_def Let_def)

lemma wfHistory_prefix: "wfHistory (h1 @ h3) \<Longrightarrow> wfHistory h1"
  by (simp add: wfHistory_def historyMatches_def)

lemma historyKeys_prefix: "set (historyKeys h1) \<subseteq> set (historyKeys (h1 @ h3))"
  by (simp add: historyKeys_def historyMatches_def)

text \<open>
  Claim C5, as the code has it. For a history whose matches have two players in each team,
  the coverage of the history and of each of its prefixes is computed, and the percentage
  of the prefix is not greater. The percentage is the one of the source: a quotient and a
  product rounded to doubles, then rounded to an integer.
\<close>

theorem partnerCoverage_monotone:
  "wfHistory (h1 @ h3) \<Longrightarrow>
     \<exists>r1 r2. partnerCoverage players h1 = Inr r1 \<and> partnerCoverage players (h1 @ h3) = Inr r2
       \<and> percent r1 \<le> percent r2"
proof (cases "2 \<le> length players")
  case False
  then show ?thesis by (simp add: partnerCoverage_def)
next
  case True
  assume wf: "wfHistory (h1 @ h3)"
  let ?tot = "(int (length players) * (int (length players) - 1)) div 2"
  let ?d1 = "int (card (set (historyKeys h1)))"
  let ?d2 = "int (card (set (historyKeys (h1 @ h3))))"
  have "card (set (historyKeys h1)) \<le> card (set (historyKeys (h1 @ h3)))"
    by (intro card_mono historyKeys_prefix) simp
  then have "pct ?tot ?d1 \<le> pct ?tot ?d2"
    by (intro pct_mono total_pos[OF True]) simp_all
  then show ?thesis
    by (simp add: partnerCoverage_wf[OF True wf] partnerCoverage_wf[OF True wfHistory_prefix[OF wf]]
        Let_def)
qed

theorem partnerCoverage_monotone_witness:
  "wfHistory ([exRound [exMatch ''ann'' ''bob'' ''cy'' ''dan'']]
              @ [exRound [exMatch ''ann'' ''cy'' ''bob'' ''dan'']])
   \<and> (\<exists>r1 r2.
         partnerCoverage (map exPlayer [''ann'', ''bob'', ''cy'', ''dan''])
           [exRound [exMatch ''ann'' ''bob'' ''cy'' ''dan'']] = Inr r1
       \<and> partnerCoverage (map exPlayer [''ann'', ''bob'', ''cy'', ''dan''])
           ([exRound [exMatch ''ann'' ''bob'' ''cy'' ''dan'']]
              @ [exRound [exMatch ''ann'' ''cy'' ''bob'' ''dan'']]) = Inr r2
       \<and> percent r1 \<le> percent r2)"
proof -
  have h: "wfHistory ([exRound [exMatch ''ann'' ''bob'' ''cy'' ''dan'']]
              @ [exRound [exMatch ''ann'' ''cy'' ''bob'' ''dan'']])"
    by (simp add: wfHistory_def historyMatches_def matches_exRound wfMatch_exMatch)
  show ?thesis by (intro conjI h partnerCoverage_monotone[OF h])
qed

text \<open>
  Claim C5 as stated, for every pair of histories, is false: on a history with a match whose
  team is empty the coverage raises a \<^verbatim>\<open>TypeError\<close> and has no percentage, while on the empty
  prefix it is computed.
\<close>

theorem partnerCoverage_monotone_counterexample:
  "\<not> (\<exists>r1 r2.
        partnerCoverage [exPlayer ''ann'', exPlayer ''bob''] [] = Inr r1
      \<and> partnerCoverage [exPlayer ''ann'', exPlayer ''bob'']
          ([] @ [exRound [\<lparr>court = 1, teamA = [], teamB = []\<rparr>]]) = Inr r2
      \<and> percent r1 \<le> percent r2)"
proof -
  have "matchIds \<lparr>court = 1, teamA = [], teamB = []\<rparr> = Inl TypeError"
    by (rule matchIds_not_wf) (simp add: wfMatch_def)
  then have "partnerCoverage [exPlayer ''ann'', exPlayer ''bob'']
          ([] @ [exRound [\<lparr>court = 1, teamA = [], teamB = []\<rparr>]]) = Inl TypeError"
    by (simp add: partnerCoverage_def matches_exRound seenMatch_def)
  then show ?thesis by simp
qed

section \<open>A coverage of 100 percent that is not complete\<close>

lemma rank_distinct:
  fixes f :: "'a \<Rightarrow> int"
  assumes "successively (\<lambda>a b. f a < f b) xs"
  shows "distinct xs"
proof -
  have "transp (\<lambda>a b. f a < f b)" by (auto simp: transp_def)
  with assms have "sorted_wrt (\<lambda>a b. f a < f b) xs"
    by (simp add: successively_conv_sorted_wrt)
  then show ?thesis by (induction xs) auto
qed

lemma card_one_repeat:
  assumes "xs \<noteq> []" and "distinct (butlast xs)" and "last xs \<in> set (butlast xs)"
  shows "card (set xs) = length xs - 1"
proof -
  have "xs = butlast xs @ [last xs]" using assms(1) by simp
  then have "set xs = insert (last xs) (set (butlast xs))"
    by (metis list.simps(15) rotate1.simps(2) set_rotate1)
  with assms(3) have "set xs = set (butlast xs)" by auto
  with assms(2) show ?thesis by (simp add: distinct_card)
qed

lemma history21_check:
  "(let ks = historyKeys history21 in
      length ks = 210 \<and> successively (\<lambda>k k'. keyRank k < keyRank k') (butlast ks)
      \<and> last ks = ks ! 199) \<and> wfHistory history21 \<and> length roster21 = 21"
  by code_simp

lemma history21_keys: "card (set (historyKeys history21)) = 209"
proof -
  let ?ks = "historyKeys history21"
  from history21_check have len: "length ?ks = 210"
    and succ: "successively (\<lambda>k k'. keyRank k < keyRank k') (butlast ?ks)"
    and rep: "last ?ks = ?ks ! 199"
    by (simp_all add: Let_def)
  from len have ne: "?ks \<noteq> []" by auto
  have "?ks ! 199 = butlast ?ks ! 199" using len by (simp add: nth_butlast)
  moreover have "butlast ?ks ! 199 \<in> set (butlast ?ks)" using len by (intro nth_mem) simp
  ultimately have "last ?ks \<in> set (butlast ?ks)" using rep by simp
  from card_one_repeat[OF ne rank_distinct[OF succ] this] len show ?thesis by simp
qed

lemma history21_coverage:
  "partnerCoverage roster21 history21 =
     Inr \<lparr>complete = False, percent = 100, missingPairs = 1, totalPairs = 210\<rparr>"
proof -
  from history21_check have wf: "wfHistory history21" and n: "length roster21 = 21"
    by (simp_all add: Let_def)
  from n have two: "2 \<le> length roster21" by simp
  show ?thesis
    by (simp add: partnerCoverage_wf[OF two wf] n history21_keys pct_210_209)
qed

text \<open>
  Claim C10: there are a roster and a history for which the coverage is 100 percent and not
  complete. In the tournament above 209 of the 210 partnerships have been seen, and
  \<open>209 / 210\<close> rounds to 100 percent.
\<close>

theorem percent_100_not_complete:
  "\<exists>players savedRounds r.
     partnerCoverage players savedRounds = Inr r \<and> percent r = 100 \<and> \<not> complete r"
proof -
  have "percent \<lparr>complete = False, percent = 100, missingPairs = 1, totalPairs = 210\<rparr> = 100"
    and "\<not> complete \<lparr>complete = False, percent = 100, missingPairs = 1, totalPairs = 210\<rparr>"
    by simp_all
  with history21_coverage show ?thesis by blast
qed

section \<open>The search visits the combinations of four players\<close>

lemma fold_index_tails:
  "i \<le> length xs \<Longrightarrow>
     fold (\<lambda>j. f (xs ! j) (drop (Suc j) xs)) [i..<length xs] s = foldTails f (drop i xs) s"
proof (induction "length xs - i" arbitrary: i s)
  case 0
  then show ?case by simp
next
  case (Suc n)
  then have lt: "i < length xs" by simp
  have u: "[i..<length xs] = i # [Suc i..<length xs]" using lt by (simp add: upt_conv_Cons)
  have d: "drop i xs = xs ! i # drop (Suc i) xs" using lt by (simp add: Cons_nth_drop_Suc)
  have "fold (\<lambda>j. f (xs ! j) (drop (Suc j) xs)) [Suc i..<length xs] (f (xs ! i) (drop (Suc i) xs) s)
          = foldTails f (drop (Suc i) xs) (f (xs ! i) (drop (Suc i) xs) s)"
    using Suc.hyps(2) lt by (intro Suc.hyps(1)) simp_all
  then show ?case by (simp add: u d)
qed

lemma foldTails_combinations:
  "foldTails (\<lambda>x rest. fold (\<lambda>g. h (x # g)) (combinations k rest)) xs s
     = fold h (combinations (Suc k) xs) s"
  by (induction xs arbitrary: s) (simp_all add: fold_map comp_def)

lemma nth_drop_index: "j < length xs \<Longrightarrow> k \<le> j \<Longrightarrow> xs ! j = drop k xs ! (j - k)"
  by simp

lemma findBest_tails:
  "findBest st xs =
     foldTails (\<lambda>p r1. foldTails (\<lambda>q r2. foldTails (\<lambda>r r3. foldTails (\<lambda>s r4.
        considerGroup st p q r s) r3) r2) r1) xs None"
proof -
  let ?n = "length xs"
  have l4: "\<And>p q r k b. k < ?n \<Longrightarrow>
      fold (\<lambda>l. considerGroup st p q r (xs ! l)) [Suc k..<?n] b
        = foldTails (\<lambda>s r4. considerGroup st p q r s) (drop (Suc k) xs) b"
    using fold_index_tails[of _ xs "\<lambda>s r4. considerGroup st _ _ _ s"] by simp
  have l3: "\<And>p q j b. j < ?n \<Longrightarrow>
      fold (\<lambda>k. fold (\<lambda>l. considerGroup st p q (xs ! k) (xs ! l)) [Suc k..<?n]) [Suc j..<?n] b
        = foldTails (\<lambda>r r3. foldTails (\<lambda>s r4. considerGroup st p q r s) r3) (drop (Suc j) xs) b"
  proof -
    fix p q j b assume "j < ?n"
    have "fold (\<lambda>k. fold (\<lambda>l. considerGroup st p q (xs ! k) (xs ! l)) [Suc k..<?n]) [Suc j..<?n] b
        = fold (\<lambda>k. foldTails (\<lambda>s r4. considerGroup st p q (xs ! k) s) (drop (Suc k) xs)) [Suc j..<?n] b"
      by (intro fold_cong refl ext) (simp_all add: l4)
    also have "\<dots> = foldTails (\<lambda>r r3. foldTails (\<lambda>s r4. considerGroup st p q r s) r3) (drop (Suc j) xs) b"
      using fold_index_tails[of "Suc j" xs "\<lambda>r r3. foldTails (\<lambda>s r4. considerGroup st p q r s) r3" b] \<open>j < ?n\<close>
      by simp
    finally show "fold (\<lambda>k. fold (\<lambda>l. considerGroup st p q (xs ! k) (xs ! l)) [Suc k..<?n]) [Suc j..<?n] b
        = foldTails (\<lambda>r r3. foldTails (\<lambda>s r4. considerGroup st p q r s) r3) (drop (Suc j) xs) b" .
  qed
  have l2: "\<And>p i b. i < ?n \<Longrightarrow>
      fold (\<lambda>j. fold (\<lambda>k. fold (\<lambda>l. considerGroup st p (xs ! j) (xs ! k) (xs ! l)) [Suc k..<?n]) [Suc j..<?n]) [Suc i..<?n] b
        = foldTails (\<lambda>q r2. foldTails (\<lambda>r r3. foldTails (\<lambda>s r4. considerGroup st p q r s) r3) r2) (drop (Suc i) xs) b"
  proof -
    fix p i b assume "i < ?n"
    have "fold (\<lambda>j. fold (\<lambda>k. fold (\<lambda>l. considerGroup st p (xs ! j) (xs ! k) (xs ! l)) [Suc k..<?n]) [Suc j..<?n]) [Suc i..<?n] b
        = fold (\<lambda>j. foldTails (\<lambda>r r3. foldTails (\<lambda>s r4. considerGroup st p (xs ! j) r s) r3) (drop (Suc j) xs)) [Suc i..<?n] b"
      by (intro fold_cong refl ext) (simp_all add: l3)
    also have "\<dots> = foldTails (\<lambda>q r2. foldTails (\<lambda>r r3. foldTails (\<lambda>s r4. considerGroup st p q r s) r3) r2) (drop (Suc i) xs) b"
      using fold_index_tails[of "Suc i" xs "\<lambda>q r2. foldTails (\<lambda>r r3. foldTails (\<lambda>s r4. considerGroup st p q r s) r3) r2" b] \<open>i < ?n\<close>
      by simp
    finally show "fold (\<lambda>j. fold (\<lambda>k. fold (\<lambda>l. considerGroup st p (xs ! j) (xs ! k) (xs ! l)) [Suc k..<?n]) [Suc j..<?n]) [Suc i..<?n] b
        = foldTails (\<lambda>q r2. foldTails (\<lambda>r r3. foldTails (\<lambda>s r4. considerGroup st p q r s) r3) r2) (drop (Suc i) xs) b" .
  qed
  have "findBest st xs
      = fold (\<lambda>i. foldTails (\<lambda>q r2. foldTails (\<lambda>r r3. foldTails (\<lambda>s r4. considerGroup st (xs ! i) q r s) r3) r2) (drop (Suc i) xs)) [0..<?n] None"
    unfolding findBest_def Let_def Suc_eq_plus1[symmetric]
    by (intro fold_cong refl ext) (simp_all add: l2)
  also have "\<dots> = foldTails (\<lambda>p r1. foldTails (\<lambda>q r2. foldTails (\<lambda>r r3. foldTails (\<lambda>s r4.
        considerGroup st p q r s) r3) r2) r1) xs None"
    using fold_index_tails[of 0 xs "\<lambda>p r1. foldTails (\<lambda>q r2. foldTails (\<lambda>r r3. foldTails (\<lambda>s r4.
        considerGroup st p q r s) r3) r2) r1" None]
    by simp
  finally show ?thesis .
qed

lemma findBest_combinations:
  "findBest st xs = fold (considerList st) (combinations 4 xs) None"
proof -
  have four: "(4::nat) = Suc (Suc (Suc (Suc 0)))" by simp
  have i4: "\<And>p q r. (\<lambda>s (r4 :: Player list). considerGroup st p q r s)
      = (\<lambda>s r4. fold (\<lambda>g. considerList st (p # q # r # s # g)) (combinations 0 r4))"
    by (simp add: considerList_def)
  have s4: "\<And>p q r r3 b. foldTails (\<lambda>s r4. considerGroup st p q r s) r3 b
      = fold (\<lambda>g. considerList st (p # q # r # g)) (combinations (Suc 0) r3) b"
    unfolding i4
    using foldTails_combinations[of "\<lambda>g. considerList st (_ # _ # _ # g)" 0] by simp
  have s3: "\<And>p q r2 b. foldTails (\<lambda>r r3. foldTails (\<lambda>s r4. considerGroup st p q r s) r3) r2 b
      = fold (\<lambda>g. considerList st (p # q # g)) (combinations (Suc (Suc 0)) r2) b"
    unfolding s4
    using foldTails_combinations[of "\<lambda>g. considerList st (_ # _ # g)" "Suc 0"] by simp
  have s2: "\<And>p r1 b. foldTails (\<lambda>q r2. foldTails (\<lambda>r r3. foldTails (\<lambda>s r4. considerGroup st p q r s) r3) r2) r1 b
      = fold (\<lambda>g. considerList st (p # g)) (combinations (Suc (Suc (Suc 0))) r1) b"
    unfolding s3
    using foldTails_combinations[of "\<lambda>g. considerList st (_ # g)" "Suc (Suc 0)"] by simp
  show ?thesis
    unfolding findBest_tails s2 four
    using foldTails_combinations[of "considerList st" "Suc (Suc (Suc 0))" xs None] by simp
qed

section \<open>The sort by games played\<close>

lemma set_insertBy: "set (insertBy cmp x xs) = insert x (set xs)"
  by (induction xs) auto

lemma set_sortBy: "set (sortBy cmp xs) = set xs"
  by (induction xs) (auto simp: sortBy_def set_insertBy)

lemma length_sortBy: "length (sortBy cmp xs) = length xs"
  using mset_sortBy[of cmp xs] by (metis size_mset)



section \<open>Removing the chosen players from the pool\<close>

lemma removeChosen_filter:
  "removeChosen chosen xs = filter (\<lambda>p. pid p \<notin> chosen) xs"
proof -
  have "\<And>ys. fold (\<lambda>idx rem. if pid (rem ! idx) \<in> chosen then take idx rem @ drop (Suc idx) rem else rem)
            (rev [0..<length xs]) (xs @ ys)
          = filter (\<lambda>p. pid p \<notin> chosen) xs @ ys"
  proof (induction xs rule: rev_induct)
    case Nil
    then show ?case by simp
  next
    case (snoc x xs)
    show ?case using snoc[of "x # ys"] snoc[of ys]
      by (simp add: nth_append)
  qed
  from this[of "[]"] show ?thesis by (simp add: removeChosen_def)
qed

section \<open>Properties of the combinations\<close>

lemma combinations_length: "g \<in> set (combinations k xs) \<Longrightarrow> length g = k"
  by (induction k xs arbitrary: g rule: combinations.induct) auto

lemma combinations_set: "g \<in> set (combinations k xs) \<Longrightarrow> set g \<subseteq> set xs"
proof (induction k xs arbitrary: g rule: combinations.induct)
  case (3 k x xs)
  from "3.prems" consider g' where "g = x # g'" "g' \<in> set (combinations k xs)"
    | "g \<in> set (combinations (Suc k) xs)" by auto
  then show ?case
  proof cases
    case 1
    with "3.IH"(1)[of g'] show ?thesis by auto
  next
    case 2
    with "3.IH"(2)[of g] show ?thesis by auto
  qed
qed simp_all

lemma combinations_distinct:
  "g \<in> set (combinations k xs) \<Longrightarrow> distinct (map f xs) \<Longrightarrow> distinct (map f g)"
proof (induction k xs arbitrary: g rule: combinations.induct)
  case (3 k x xs)
  from "3.prems"(1) consider g' where "g = x # g'" "g' \<in> set (combinations k xs)"
    | "g \<in> set (combinations (Suc k) xs)" by auto
  then show ?case
  proof cases
    case 1
    with "3.IH"(1)[of g'] "3.prems"(2) combinations_set[of g' k xs] show ?thesis by auto
  next
    case 2
    with "3.IH"(2)[of g] "3.prems"(2) show ?thesis by simp
  qed
qed simp_all

lemma combinations_nonempty: "k \<le> length xs \<Longrightarrow> combinations k xs \<noteq> []"
  by (induction k xs rule: combinations.induct) auto

lemma combinations_count: "length (combinations k xs) = length xs choose k"
  by (induction k xs rule: combinations.induct) auto

section \<open>One court after the other\<close>

lemma four_list: "length g = 4 \<Longrightarrow> [g ! 0, g ! 1, g ! 2, g ! 3] = g"
proof -
  assume "length g = 4"
  then obtain p q r s where "g = [p, q, r, s]"
    by (auto simp: length_Suc_conv numeral_eq_Suc)
  then show ?thesis by simp
qed

lemma four_list': "length g = 4 \<Longrightarrow> [g ! 0, g ! Suc 0, g ! 2, g ! 3] = g"
  using four_list[of g] by simp

lemma considerList_cases:
  "length g = 4 \<Longrightarrow>
   considerList st g b =
     (case b of None \<Rightarrow> Some (mkBest st g)
      | Some b' \<Rightarrow> if jslt (bestScore (mkBest st g)) (bestScore b') then Some (mkBest st g) else b)"
  by (simp add: considerList_def considerGroup_def mkBest_def Let_def four_list' split: option.splits)

text \<open>Whatever the scores are, the search ends on a group of the list, when there is one.\<close>

lemma fold_considerList_Some:
  assumes "\<And>g. g \<in> set gs \<Longrightarrow> length g = 4"
  shows "fold (considerList st) gs (Some b) = Some b
           \<or> (\<exists>g\<in>set gs. fold (considerList st) gs (Some b) = Some (mkBest st g))"
  using assms
proof (induction gs arbitrary: b)
  case Nil
  then show ?case by simp
next
  case (Cons g gs)
  have len: "length g = 4" using Cons.prems by simp
  have rest: "\<And>g. g \<in> set gs \<Longrightarrow> length g = 4" using Cons.prems by simp
  show ?case
  proof (cases "jslt (bestScore (mkBest st g)) (bestScore b)")
    case True
    then have "considerList st g (Some b) = Some (mkBest st g)"
      by (simp add: considerList_cases[OF len])
    with Cons.IH[OF rest, of "mkBest st g"] show ?thesis by auto
  next
    case False
    then have "considerList st g (Some b) = Some b"
      by (simp add: considerList_cases[OF len])
    with Cons.IH[OF rest, of b] show ?thesis by auto
  qed
qed

lemma fold_considerList_None:
  assumes "\<And>g. g \<in> set gs \<Longrightarrow> length g = 4" and "gs \<noteq> []"
  shows "\<exists>g\<in>set gs. fold (considerList st) gs None = Some (mkBest st g)"
proof -
  from assms(2) obtain g gs' where gs: "gs = g # gs'" by (cases gs) auto
  have len: "length g = 4" using assms(1) gs by simp
  have rest: "\<And>g. g \<in> set gs' \<Longrightarrow> length g = 4" using assms(1) gs by simp
  have "considerList st g None = Some (mkBest st g)"
    by (simp add: considerList_cases[OF len])
  with fold_considerList_Some[where gs = gs' and st = st and b = "mkBest st g"] rest gs
  show ?thesis by auto
qed

lemma findBest_group:
  assumes "4 \<le> length xs"
  shows "\<exists>g\<in>set (combinations 4 xs). findBest st xs = Some (mkBest st g)"
  unfolding findBest_combinations
  using assms by (intro fold_considerList_None combinations_length combinations_nonempty)

lemma sortBy_nonempty: "xs \<noteq> [] \<Longrightarrow> sortBy cmp xs \<noteq> []"
  using length_sortBy[of cmp xs] by auto

lemma bestSplitForFour_options:
  "bestSplitForFour st p q r s \<in> {mkOption st p q r s, mkOption st p r q s, mkOption st p s q r}"
proof -
  let ?opts = "[mkOption st p q r s, mkOption st p r q s, mkOption st p s q r]"
  let ?cmp = "\<lambda>x y. jssub (optScore x) (optScore y)"
  have "sortBy ?cmp ?opts \<noteq> []" by (rule sortBy_nonempty) simp
  then have "hd (sortBy ?cmp ?opts) \<in> set (sortBy ?cmp ?opts)" by (rule hd_in_set)
  then have "hd (sortBy ?cmp ?opts) \<in> set ?opts" by (simp only: set_sortBy)
  then show ?thesis by (simp add: bestSplitForFour_def Let_def)
qed

lemma bestSplit_players:
  "mset [optA (bestSplitForFour st p q r s), optB (bestSplitForFour st p q r s),
         optC (bestSplitForFour st p q r s), optD (bestSplitForFour st p q r s)]
     = mset [p, q, r, s]"
proof -
  from bestSplitForFour_options[of st p q r s]
  consider "bestSplitForFour st p q r s = mkOption st p q r s"
    | "bestSplitForFour st p q r s = mkOption st p r q s"
    | "bestSplitForFour st p q r s = mkOption st p s q r"
    by auto
  then show ?thesis
  proof cases
    case 1
    then show ?thesis by (simp add: mkOption_def)
  next
    case 2
    then show ?thesis by (simp add: mkOption_def)
  next
    case 3
    then show ?thesis by (simp add: mkOption_def)
  qed
qed

lemma mkMatch_players:
  assumes "length g = 4"
  shows "mset (matchPlayers (mkMatch c (bestSplit (mkBest st g)))) = mset g"
    and "length (teamA (mkMatch c (bestSplit (mkBest st g)))) = 2"
    and "length (teamB (mkMatch c (bestSplit (mkBest st g)))) = 2"
    and "court (mkMatch c (bestSplit (mkBest st g))) = c"
proof -
  from assms obtain p q r s where g: "g = [p, q, r, s]"
    by (auto simp: length_Suc_conv numeral_eq_Suc)
  have b: "bestSplit (mkBest st g) = bestSplitForFour st p q r s"
    by (simp add: mkBest_def g)
  have "matchPlayers (mkMatch c (bestSplit (mkBest st g)))
          = [optA (bestSplitForFour st p q r s), optB (bestSplitForFour st p q r s),
             optC (bestSplitForFour st p q r s), optD (bestSplitForFour st p q r s)]"
    unfolding b by (simp add: matchPlayers_def mkMatch_def)
  then have "mset (matchPlayers (mkMatch c (bestSplit (mkBest st g))))
          = mset [optA (bestSplitForFour st p q r s), optB (bestSplitForFour st p q r s),
             optC (bestSplitForFour st p q r s), optD (bestSplitForFour st p q r s)]"
    by (simp only:)
  also have "\<dots> = mset [p, q, r, s]" by (rule bestSplit_players)
  finally show "mset (matchPlayers (mkMatch c (bestSplit (mkBest st g)))) = mset g"
    by (simp only: g)
qed (simp_all add: mkMatch_def)

lemma mset_filter_partition:
  "mset xs = mset (filter P xs) + mset (filter (\<lambda>x. \<not> P x) xs)"
  unfolding mset_filter by (rule multiset_partition)

lemma remove_group:
  assumes "g \<in> set (combinations 4 xs)" and "distinct (map pid xs)"
  shows "mset xs = mset g + mset (filter (\<lambda>p. pid p \<notin> set (map pid g)) xs)"
proof -
  have sub: "set g \<subseteq> set xs" by (rule combinations_set[OF assms(1)])
  have dg: "distinct g" using combinations_distinct[OF assms] by (simp add: distinct_map)
  have dx: "distinct xs" and inj: "inj_on pid (set xs)" using assms(2) by (simp_all add: distinct_map)
  have eq: "pid p \<in> set (map pid g) \<longleftrightarrow> p \<in> set g" if "p \<in> set xs" for p
  proof
    assume "pid p \<in> set (map pid g)"
    then obtain p' where p': "p' \<in> set g" "pid p = pid p'" by auto
    with sub have "p' \<in> set xs" by auto
    from inj_onD[OF inj p'(2) that this] p'(1) show "p \<in> set g" by simp
  next
    assume "p \<in> set g"
    then show "pid p \<in> set (map pid g)" by simp
  qed
  have f: "filter (\<lambda>p. pid p \<in> set (map pid g)) xs = filter (\<lambda>p. p \<in> set g) xs"
    by (rule filter_cong[OF refl]) (rule eq)
  have h1: "set (filter (\<lambda>p. p \<in> set g) xs) = set g" using sub by auto
  have h2: "distinct (filter (\<lambda>p. p \<in> set g) xs)" using dx by simp
  have "mset (filter (\<lambda>p. p \<in> set g) xs) = mset g"
    by (rule iffD1[OF set_eq_iff_mset_eq_distinct[OF h2 dg] h1])
  then have m: "mset (filter (\<lambda>p. pid p \<in> set (map pid g)) xs) = mset g"
    by (simp only: f)
  have "mset xs = mset (filter (\<lambda>p. pid p \<in> set (map pid g)) xs)
                   + mset (filter (\<lambda>p. pid p \<notin> set (map pid g)) xs)"
    by (rule mset_filter_partition)
  then show ?thesis by (simp only: m)
qed

lemma courtLoop_round:
  assumes "distinct (map pid xs)" and "length xs = 4 * length cs"
  shows "\<exists>new. courtLoop st cs xs acc = acc @ new \<and> map court new = cs
           \<and> (\<forall>m\<in>set new. length (teamA m) = 2 \<and> length (teamB m) = 2)
           \<and> mset (concat (map matchPlayers new)) = mset xs"
  using assms
proof (induction cs arbitrary: xs acc)
  case Nil
  then show ?case by simp
next
  case (Cons c cs)
  then have len4: "4 \<le> length xs" by simp
  from findBest_group[OF len4, of st] obtain g
    where g: "g \<in> set (combinations 4 xs)" and best: "findBest st xs = Some (mkBest st g)"
    by auto
  have lg: "length g = 4" by (rule combinations_length[OF g])
  let ?m = "mkMatch c (bestSplit (mkBest st g))"
  let ?xs' = "filter (\<lambda>p. pid p \<notin> set (map pid g)) xs"
  have split: "mset xs = mset g + mset ?xs'" by (rule remove_group[OF g Cons.prems(1)])
  then have "length xs = length g + length ?xs'" by (metis size_mset size_union)
  with lg Cons.prems(2) have l': "length ?xs' = 4 * length cs" by simp
  have d': "distinct (map pid ?xs')" using Cons.prems(1) by (simp add: distinct_map_filter)
  from Cons.IH[OF d' l', of "acc @ [?m]"] obtain new
    where new: "courtLoop st cs ?xs' (acc @ [?m]) = (acc @ [?m]) @ new" "map court new = cs"
      "\<forall>m\<in>set new. length (teamA m) = 2 \<and> length (teamB m) = 2"
      "mset (concat (map matchPlayers new)) = mset ?xs'"
    by auto
  have "courtLoop st (c # cs) xs acc = courtLoop st cs ?xs' (acc @ [?m])"
    using len4 best by (simp add: removeChosen_filter mkBest_def Let_def)
  with new(1) have f1: "courtLoop st (c # cs) xs acc = acc @ (?m # new)" by simp
  have f2: "map court (?m # new) = c # cs"
    using new(2) mkMatch_players(4)[OF lg] by simp
  have f3: "\<forall>m\<in>set (?m # new). length (teamA m) = 2 \<and> length (teamB m) = 2"
    using new(3) mkMatch_players(2,3)[OF lg] by simp
  have f4: "mset (concat (map matchPlayers (?m # new))) = mset xs"
  proof -
    have "mset (concat (map matchPlayers (?m # new)))
            = mset (matchPlayers ?m) + mset (concat (map matchPlayers new))"
      by simp
    also have "\<dots> = mset g + mset ?xs'"
      by (simp only: new(4) mkMatch_players(1)[OF lg])
    also have "\<dots> = mset xs" by (simp only: split)
    finally show ?thesis .
  qed
  show ?case
    by (rule exI[of _ "?m # new"]) (intro conjI f1 f2 f3 f4)
qed

section \<open>The round: courts, teams and active players\<close>



lemma generateFairRound_code:
  assumes "computeStats players savedRounds = Inr st"
  shows "generateFairRound shuffle players courtsWanted savedRounds =
     Inr (courtLoop st [1..usedCourts players courtsWanted]
            (take (nat (usedCourts players courtsWanted * 4)) (byGames st (shuffle players))) [],
          drop (nat (usedCourts players courtsWanted * 4)) (byGames st (shuffle players)))"
  by (simp add: generateFairRound_def Let_def assms usedCourts_def byGames_def)

lemma distinct_map_mset:
  assumes "mset xs = mset ys" and "distinct (map f ys)"
  shows "distinct (map f xs)"
proof -
  from assms(1) have "mset (map f xs) = mset (map f ys)" by (metis mset_map)
  with assms(2) show ?thesis by (metis mset_eq_imp_distinct_iff)
qed

lemma mset_byGames: "mset (byGames st xs) = mset xs"
  by (simp add: byGames_def mset_sortBy)

lemma active_shape:
  assumes "distinct (map pid players)" and "mset xs = mset players"
  shows "distinct (map pid (take (nat (usedCourts players courtsWanted * 4)) (byGames st xs)))"
    and "length (take (nat (usedCourts players courtsWanted * 4)) (byGames st xs))
           = 4 * length [1..usedCourts players courtsWanted]"
proof -
  let ?r = "byGames st xs"
  let ?c = "usedCourts players courtsWanted"
  have m: "mset ?r = mset players" by (simp add: mset_byGames assms(2))
  then have "distinct (map pid ?r)" by (rule distinct_map_mset[OF _ assms(1)])
  then show "distinct (map pid (take (nat (?c * 4)) ?r))"
    by (simp add: take_map[symmetric] del: take_map)
  have len: "length ?r = length players" using m by (metis size_mset)
  have c0: "0 \<le> ?c" and c4: "?c * 4 \<le> int (length players)"
    by (simp_all add: usedCourts_def)
  then have "nat (?c * 4) \<le> length ?r" using len by simp
  then have "length (take (nat (?c * 4)) ?r) = nat (?c * 4)" by simp
  also have "\<dots> = 4 * nat ?c" using c0 by (simp add: nat_mult_distrib)
  finally show "length (take (nat (?c * 4)) ?r) = 4 * length [1..?c]" by simp
qed

lemma generateFairRound_round:
  assumes "distinct (map pid players)" and "mset (shuffle players) = mset players"
    and "wfHistory savedRounds"
  shows "\<exists>ms bench. generateFairRound shuffle players courtsWanted savedRounds = Inr (ms, bench)
       \<and> map court ms = [1..int (length ms)]
       \<and> int (length ms) = usedCourts players courtsWanted
       \<and> (\<forall>m\<in>set ms. length (teamA m) = 2 \<and> length (teamB m) = 2)
       \<and> distinct (map pid (concat (map matchPlayers ms)))
       \<and> mset (concat (map matchPlayers ms)) + mset bench = mset players
       \<and> mset (concat (map matchPlayers ms))
           = mset (take (nat (usedCourts players courtsWanted * 4))
               (byGames (fold statsStep (historyMatches savedRounds) (initStats players))
                  (shuffle players)))"
proof -
  let ?c = "usedCourts players courtsWanted"
  define st where "st = fold statsStep (historyMatches savedRounds) (initStats players)"
  have st: "computeStats players savedRounds = Inr st"
    unfolding st_def by (rule computeStats_wf[OF assms(3)])
  define bg where "bg = byGames st (shuffle players)"
  define act where "act = take (nat (?c * 4)) bg"
  define bench where "bench = drop (nat (?c * 4)) bg"
  have gen: "generateFairRound shuffle players courtsWanted savedRounds
               = Inr (courtLoop st [1..?c] act [], bench)"
    by (simp add: generateFairRound_code[OF st] act_def bench_def bg_def)
  note shape = active_shape[OF assms(1), of "shuffle players", OF assms(2), of courtsWanted st,
      folded bg_def]
  from courtLoop_round[OF shape, of st "[]", folded act_def]
  obtain ms where ms: "courtLoop st [1..?c] act [] = [] @ ms" "map court ms = [1..?c]"
      "\<forall>m\<in>set ms. length (teamA m) = 2 \<and> length (teamB m) = 2"
      "mset (concat (map matchPlayers ms)) = mset act"
    by blast
  have f0: "generateFairRound shuffle players courtsWanted savedRounds = Inr (ms, bench)"
    using gen ms(1) by simp
  have "length ms = length [1..?c]" using ms(2) by (metis length_map)
  then have f2: "int (length ms) = ?c" by (simp add: usedCourts_def)
  then have f1: "map court ms = [1..int (length ms)]" using ms(2) by simp
  have f4: "distinct (map pid (concat (map matchPlayers ms)))"
    by (rule distinct_map_mset[OF ms(4) shape(1)[folded act_def]])
  have "mset act + mset bench = mset bg"
    unfolding act_def bench_def by (metis append_take_drop_id mset_append)
  then have f5: "mset (concat (map matchPlayers ms)) + mset bench = mset players"
    by (simp add: ms(4) bg_def mset_byGames assms(2))
  show ?thesis
    by (rule exI[of _ ms], rule exI[of _ bench])
      (intro conjI f0 f1 f2 ms(3) f4 f5 ms(4)[unfolded act_def bg_def st_def])
qed





text \<open>
  The condition on \<^verbatim>\<open>__proto__\<close> is needed for the active players. The table of the games is
  a plain object: for this identifier it has no entry, the read gives \<^verbatim>\<open>Object.prototype\<close>
  and the comparator of the sort gives \<^verbatim>\<open>NaN\<close>, which counts as zero. Here the other
  players have no game, so the sort leaves the shuffle as it is: the player \<^verbatim>\<open>__proto__\<close>,
  who has one game, plays, and \<open>dan\<close>, who has none, is on the bench.
\<close>

lemma proto_rank_example:
  "generateFairRound (\<lambda>ps. ps) (map exPlayer [''__proto__'', ''ann'', ''bob'', ''cy'', ''dan'']) 1
     [exRound [exMatch ''__proto__'' ''x'' ''y'' ''z'']]
     = Inr ([exMatch ''__proto__'' ''ann'' ''bob'' ''cy''], [exPlayer ''dan''])
   \<and> activePlayers (\<lambda>ps. ps) (map exPlayer [''__proto__'', ''ann'', ''bob'', ''cy'', ''dan'']) 1
       [exRound [exMatch ''__proto__'' ''x'' ''y'' ''z'']]
     = map exPlayer [''ann'', ''bob'', ''cy'', ''dan'']"
  by code_simp

section \<open>The first round of four players\<close>

lemma makeKey_shape: "\<exists>x y. makeKey a b = x @ ''__'' @ y \<and> (x = a \<and> y = b \<or> x = b \<and> y = a)"
proof (cases "a < b")
  case True
  then have "makeKey a b = a @ ''__'' @ b \<and> (a = a \<and> b = b \<or> a = b \<and> b = a)"
    by (simp add: makeKey_def)
  then show ?thesis by (intro exI)
next
  case False
  then have "makeKey a b = b @ ''__'' @ a \<and> (b = a \<and> a = b \<or> b = b \<and> a = a)"
    by (simp add: makeKey_def)
  then show ?thesis by (intro exI)
qed

lemma sep_unique:
  assumes "CHR ''_'' \<notin> set a" and "CHR ''_'' \<notin> set c" and "a @ ''__'' @ b = c @ ''__'' @ d"
  shows "a = c"
proof -
  have "takeWhile (\<lambda>ch. ch \<noteq> CHR ''_'') (a @ ''__'' @ b) = a"
    using assms(1) by (simp add: takeWhile_sep takeWhile_clean)
  moreover have "takeWhile (\<lambda>ch. ch \<noteq> CHR ''_'') (c @ ''__'' @ d) = c"
    using assms(2) by (simp add: takeWhile_sep takeWhile_clean)
  ultimately show ?thesis using assms(3) by simp
qed

lemma makeKey_share:
  assumes "CHR ''_'' \<notin> set a" "CHR ''_'' \<notin> set b" "CHR ''_'' \<notin> set c" "CHR ''_'' \<notin> set d"
    and "makeKey a b = makeKey c d"
  shows "a = c \<or> a = d \<or> b = c \<or> b = d"
proof -
  obtain x y where 1: "makeKey a b = x @ ''__'' @ y" "x = a \<or> x = b"
    using makeKey_shape[of a b] by auto
  obtain u v where 2: "makeKey c d = u @ ''__'' @ v" "u = c \<or> u = d"
    using makeKey_shape[of c d] by auto
  have "CHR ''_'' \<notin> set x" "CHR ''_'' \<notin> set u" using 1(2) 2(2) assms(1-4) by auto
  then have "x = u" using 1(1) 2(1) assms(5) by (intro sep_unique[of x u y v]) simp_all
  then show ?thesis using 1(2) 2(2) by auto
qed

lemma two_list: "length xs = 2 \<Longrightarrow> \<exists>a b. xs = [a, b]"
  by (cases xs; cases "tl xs") auto

lemma one_match_coverage:
  assumes len: "length players = 4" and m: "matches r = [m]"
    and ta: "teamA m = [a1, a2]" and tb: "teamB m = [b1, b2]"
  shows "partnerCoverage players [r] =
     Inr \<lparr>complete = False,
          percent = (if makeKey (pid a1) (pid a2) = makeKey (pid b1) (pid b2) then 17 else 33),
          missingPairs = (if makeKey (pid a1) (pid a2) = makeKey (pid b1) (pid b2) then 5 else 4),
          totalPairs = 6\<rparr>"
proof -
  have wf: "wfHistory [r]"
    by (simp add: wfHistory_def historyMatches_def m wfMatch_def ta tb)
  have keys: "historyKeys [r] = [makeKey (pid a1) (pid a2), makeKey (pid b1) (pid b2)]"
    by (simp add: historyKeys_def historyMatches_def m partnerKeys_def ids_def ta tb)
  have two: "2 \<le> length players" using len by simp
  show ?thesis
    by (simp add: partnerCoverage_wf[OF two wf] keys len Let_def pct_6_1 pct_6_2 card_insert_if)
qed

text \<open>
  Claim C8, as the code has it. For a roster of four players with pairwise distinct
  identifiers, the empty history and one court requested, the generator returns one match on
  court 1 and an empty bench, whatever the shuffle; the two teams of two players hold the
  four players of the roster. For a history of that one round the coverage has 6 pairs in
  all and is not complete. The round has two partner pairs, one for each team: the
  percentage is 33 with 4 pairs missing, and it is so for identifiers with no underscore;
  it is 17 with 5 missing when the keys of the two teams are the same string.
\<close>

theorem four_players_one_match:
  assumes "length players = 4" and "distinct (map pid players)"
    and "mset (shuffle players) = mset players"
  shows "\<exists>m. generateFairRound shuffle players 1 [] = Inr ([m], [])
       \<and> court m = 1 \<and> length (teamA m) = 2 \<and> length (teamB m) = 2
       \<and> mset (matchPlayers m) = mset players
       \<and> (\<forall>r. matches r = [m] \<longrightarrow>
            (\<exists>cov. partnerCoverage players [r] = Inr cov
               \<and> totalPairs cov = 6 \<and> complete cov = False
               \<and> (percent cov = 33 \<and> missingPairs cov = 4 \<or> percent cov = 17 \<and> missingPairs cov = 5)
               \<and> ((\<forall>p\<in>set players. CHR ''_'' \<notin> set (pid p)) \<longrightarrow>
                     percent cov = 33 \<and> missingPairs cov = 4)))"
proof -
  have wf: "wfHistory []" by (simp add: wfHistory_def historyMatches_def)
  have uc: "usedCourts players 1 = 1" using assms(1) by (simp add: usedCourts_def)
  from generateFairRound_round[where shuffle = shuffle and players = players and courtsWanted = 1,
      OF assms(2,3) wf]
  obtain ms bench where r: "generateFairRound shuffle players 1 [] = Inr (ms, bench)"
      "map court ms = [1..int (length ms)]" "int (length ms) = 1"
      "\<forall>m\<in>set ms. length (teamA m) = 2 \<and> length (teamB m) = 2"
      "distinct (map pid (concat (map matchPlayers ms)))"
      "mset (concat (map matchPlayers ms)) + mset bench = mset players"
    unfolding uc by blast
  from r(3) obtain m where ms: "ms = [m]" by (cases ms) auto
  have c1: "court m = 1" using r(2) by (simp add: ms)
  have la: "length (teamA m) = 2" and lb: "length (teamB m) = 2" using r(4) by (simp_all add: ms)
  have "size (mset (matchPlayers m) + mset bench) = size (mset players)"
    using r(6) by (simp add: ms)
  then have "bench = []" using la lb assms(1) by (simp add: matchPlayers_def)
  then have mp: "mset (matchPlayers m) = mset players" and
    gen: "generateFairRound shuffle players 1 [] = Inr ([m], [])"
    using r(1,6) by (simp_all add: ms)
  obtain a1 a2 where ta: "teamA m = [a1, a2]" using two_list[OF la] by blast
  obtain b1 b2 where tb: "teamB m = [b1, b2]" using two_list[OF lb] by blast
  have dist: "distinct [pid a1, pid a2, pid b1, pid b2]"
    using r(5) by (simp add: ms matchPlayers_def ta tb)
  have mem: "set players = {a1, a2, b1, b2}"
    using mset_eq_setD[OF mp] by (auto simp: matchPlayers_def ta tb)
  have clean: "(\<forall>p\<in>set players. CHR ''_'' \<notin> set (pid p)) \<Longrightarrow>
     makeKey (pid a1) (pid a2) \<noteq> makeKey (pid b1) (pid b2)"
  proof
    assume u: "\<forall>p\<in>set players. CHR ''_'' \<notin> set (pid p)"
      and e: "makeKey (pid a1) (pid a2) = makeKey (pid b1) (pid b2)"
    from u mem have "CHR ''_'' \<notin> set (pid a1)" "CHR ''_'' \<notin> set (pid a2)"
      "CHR ''_'' \<notin> set (pid b1)" "CHR ''_'' \<notin> set (pid b2)" by simp_all
    from makeKey_share[OF this e] dist show False by auto
  qed
  have cov: "\<forall>r. matches r = [m] \<longrightarrow>
            (\<exists>cov. partnerCoverage players [r] = Inr cov
               \<and> totalPairs cov = 6 \<and> complete cov = False
               \<and> (percent cov = 33 \<and> missingPairs cov = 4 \<or> percent cov = 17 \<and> missingPairs cov = 5)
               \<and> ((\<forall>p\<in>set players. CHR ''_'' \<notin> set (pid p)) \<longrightarrow>
                     percent cov = 33 \<and> missingPairs cov = 4))"
  proof (intro allI impI)
    fix r :: SavedRound assume "matches r = [m]"
    note one_match_coverage[OF assms(1) this ta tb]
    then show "\<exists>cov. partnerCoverage players [r] = Inr cov
               \<and> totalPairs cov = 6 \<and> complete cov = False
               \<and> (percent cov = 33 \<and> missingPairs cov = 4 \<or> percent cov = 17 \<and> missingPairs cov = 5)
               \<and> ((\<forall>p\<in>set players. CHR ''_'' \<notin> set (pid p)) \<longrightarrow>
                     percent cov = 33 \<and> missingPairs cov = 4)"
      using clean by auto
  qed
  show ?thesis by (rule exI[of _ m]) (intro conjI gen c1 la lb mp cov)
qed


theorem four_players_one_match_witness:
  "length (map exPlayer [''ann'', ''bob'', ''cy'', ''dan'']) = 4
   \<and> distinct (map pid (map exPlayer [''ann'', ''bob'', ''cy'', ''dan'']))
   \<and> mset (rev (map exPlayer [''ann'', ''bob'', ''cy'', ''dan'']))
       = mset (map exPlayer [''ann'', ''bob'', ''cy'', ''dan''])
   \<and> list_all (\<lambda>p. CHR ''_'' \<notin> set (pid p)) (map exPlayer [''ann'', ''bob'', ''cy'', ''dan''])
   \<and> (\<exists>m. generateFairRound rev (map exPlayer [''ann'', ''bob'', ''cy'', ''dan'']) 1 [] = Inr ([m], [])
        \<and> court m = 1 \<and> length (teamA m) = 2 \<and> length (teamB m) = 2
        \<and> mset (matchPlayers m) = mset (map exPlayer [''ann'', ''bob'', ''cy'', ''dan''])
        \<and> (\<exists>cov. partnerCoverage (map exPlayer [''ann'', ''bob'', ''cy'', ''dan'']) [exRound [m]] = Inr cov
              \<and> totalPairs cov = 6 \<and> complete cov = False
              \<and> percent cov = 33 \<and> missingPairs cov = 4))"
proof -
  define ps where "ps = map exPlayer [''ann'', ''bob'', ''cy'', ''dan'']"
  have h1: "length ps = 4" by (simp add: ps_def)
  have h2: "distinct (map pid ps)" by (simp add: ps_def pid_exPlayer)
  have h3: "mset (rev ps) = mset ps" by (rule mset_rev)
  have h4: "list_all (\<lambda>p. CHR ''_'' \<notin> set (pid p)) ps" by (simp add: ps_def pid_exPlayer)
  then have h5: "\<forall>p\<in>set ps. CHR ''_'' \<notin> set (pid p)" by (simp add: list_all_iff)
  from four_players_one_match[of ps rev, OF h1 h2 h3]
  obtain m where m: "generateFairRound rev ps 1 [] = Inr ([m], [])"
      "court m = 1" "length (teamA m) = 2" "length (teamB m) = 2"
      "mset (matchPlayers m) = mset ps"
      and cov: "\<forall>r. matches r = [m] \<longrightarrow>
            (\<exists>cov. partnerCoverage ps [r] = Inr cov
               \<and> totalPairs cov = 6 \<and> complete cov = False
               \<and> (percent cov = 33 \<and> missingPairs cov = 4 \<or> percent cov = 17 \<and> missingPairs cov = 5)
               \<and> ((\<forall>p\<in>set ps. CHR ''_'' \<notin> set (pid p)) \<longrightarrow>
                     percent cov = 33 \<and> missingPairs cov = 4))"
    by (elim exE conjE)
  from cov[rule_format, OF matches_exRound]
  obtain c where c: "partnerCoverage ps [exRound [m]] = Inr c" "totalPairs c = 6" "complete c = False"
      "(\<forall>p\<in>set ps. CHR ''_'' \<notin> set (pid p)) \<longrightarrow> percent c = 33 \<and> missingPairs c = 4"
    by (elim exE conjE)
  from c(4) h5 have c5: "percent c = 33" "missingPairs c = 4" by simp_all
  have "\<exists>cov. partnerCoverage ps [exRound [m]] = Inr cov
              \<and> totalPairs cov = 6 \<and> complete cov = False
              \<and> percent cov = 33 \<and> missingPairs cov = 4"
    by (rule exI[of _ c]) (intro conjI c(1-3) c5)
  then have "\<exists>m. generateFairRound rev ps 1 [] = Inr ([m], [])
        \<and> court m = 1 \<and> length (teamA m) = 2 \<and> length (teamB m) = 2
        \<and> mset (matchPlayers m) = mset ps
        \<and> (\<exists>cov. partnerCoverage ps [exRound [m]] = Inr cov
              \<and> totalPairs cov = 6 \<and> complete cov = False
              \<and> percent cov = 33 \<and> missingPairs cov = 4)"
    by (intro exI[of _ m] conjI m)
  with h1 h2 h3 h4 show ?thesis unfolding ps_def by (intro conjI)
qed

lemma initial_round_four:
  "generateFairRound (\<lambda>ps. ps) (map exPlayer [''ann'', ''bob'', ''cy'', ''dan'']) 1 []
     = Inr ([exMatch ''ann'' ''bob'' ''cy'' ''dan''], [])"
  by code_simp

text \<open>
  Claim C8 as stated, with a percentage of 17 and 5 missing pairs, is false: for the roster
  \<open>ann, bob, cy, dan\<close> and the identity shuffle the round is \<open>ann, bob\<close> against \<open>cy, dan\<close>,
  and the coverage of that round counts the two pairs \<open>ann, bob\<close> and \<open>cy, dan\<close>: 33 percent,
  4 pairs missing.
\<close>

theorem one_round_coverage_counterexample:
  "generateFairRound (\<lambda>ps. ps) (map exPlayer [''ann'', ''bob'', ''cy'', ''dan'']) 1 []
     = Inr ([exMatch ''ann'' ''bob'' ''cy'' ''dan''], [])
   \<and> partnerCoverage (map exPlayer [''ann'', ''bob'', ''cy'', ''dan''])
       [exRound [exMatch ''ann'' ''bob'' ''cy'' ''dan'']]
     = Inr \<lparr>complete = False, percent = 33, missingPairs = 4, totalPairs = 6\<rparr>"
proof -
  have "makeKey ''ann'' ''bob'' \<noteq> makeKey ''cy'' ''dan''" by (simp add: makeKey_def)
  then have "partnerCoverage (map exPlayer [''ann'', ''bob'', ''cy'', ''dan''])
       [exRound [exMatch ''ann'' ''bob'' ''cy'' ''dan'']]
     = Inr \<lparr>complete = False, percent = 33, missingPairs = 4, totalPairs = 6\<rparr>"
    by (subst one_match_coverage[where m = "exMatch ''ann'' ''bob'' ''cy'' ''dan''"
          and ?a1.0 = "exPlayer ''ann''" and ?a2.0 = "exPlayer ''bob''"
          and ?b1.0 = "exPlayer ''cy''" and ?b2.0 = "exPlayer ''dan''"])
       (simp_all add: matches_exRound exMatch_def pid_exPlayer)
  then show ?thesis by (intro conjI initial_round_four)
qed

section \<open>The match of a court is the first candidate of least cost\<close>

subsection \<open>Keys of identifiers with no underscore\<close>





subsection \<open>The scores are the costs\<close>




subsection \<open>First minima\<close>







subsection \<open>The best split of a group\<close>




subsection \<open>The search over the groups\<close>





subsection \<open>The loop over the courts\<close>






subsection \<open>The emitted matches\<close>









section \<open>A pair of the saved round is not formed again\<close>

subsection \<open>Keys\<close>


lemma no_underscores: "length (filter (\<lambda>c. c = CHR ''_'') x) = 0 \<longleftrightarrow> CHR ''_'' \<notin> set x"
  by (auto simp: filter_empty_conv)


subsection \<open>A history whose players are pairwise distinct\<close>



















subsection \<open>The cost of a repeated pair\<close>


lemma opponentTimes_commute: "opponentTimes h x y = opponentTimes h y x"
  by (simp add: opponentTimes_def makeKey_commute[of x y])





subsection \<open>No pair of the saved round is formed again\<close>











text \<open>
  The condition on the identifiers is needed as well. With the identifier \<^verbatim>\<open>__proto__\<close> the
  scores are \<^verbatim>\<open>NaN\<close> and the first split of the first group is emitted: after a round of two
  matches with eight distinct players, \<^verbatim>\<open>__proto__\<close> and \<open>ann\<close> are partners again.
\<close>

lemma proto_pair_example:
  "generateFairRound (\<lambda>ps. ps)
     (map exPlayer [''__proto__'', ''ann'', ''bob'', ''cy'', ''dan'', ''eve'', ''fay'', ''gus'']) 1
     [exRound [exMatch ''__proto__'' ''ann'' ''bob'' ''cy'', exMatch ''dan'' ''eve'' ''fay'' ''gus'']]
   = Inr ([exMatch ''__proto__'' ''ann'' ''bob'' ''cy''], map exPlayer [''dan'', ''eve'', ''fay'', ''gus''])"
  by code_simp



end
